theory Spec2Isabelle
  imports Complex_Main "HOL-Library.Word" "HOL-Library.Sublist" "HOL-Library.Log_Nat"
begin

section \<open>JavaScript strings\<close>

text \<open>
  A JavaScript string is a sequence of UTF-16 code units; \<open>length\<close>, \<open>trim\<close>,
  \<open>startsWith\<close>, \<open>lastIndexOf\<close>, \<open>substring\<close> and the regular expressions of the
  source all work on code units.  \<open>js\<close> turns an ASCII literal into such a string.
\<close>

type_synonym jschar = "16 word"
type_synonym jsstring = "jschar list"

definition js :: "string \<Rightarrow> jsstring" where
  "js cs = map of_char cs"

text \<open>
  ECMAScript WhiteSpace and LineTerminator code points: what \<open>String.prototype.trim\<close>
  strips and what \<open>\s\<close> matches in a regular expression.
\<close>

definition is_ws :: "jschar \<Rightarrow> bool" where
  "is_ws c \<longleftrightarrow> c = 0x09 \<or> c = 0x0A \<or> c = 0x0B \<or> c = 0x0C \<or> c = 0x0D \<or> c = 0x20
     \<or> c = 0xA0 \<or> c = 0x1680 \<or> (0x2000 \<le> c \<and> c \<le> 0x200A) \<or> c = 0x2028
     \<or> c = 0x2029 \<or> c = 0x202F \<or> c = 0x205F \<or> c = 0x3000 \<or> c = 0xFEFF"

definition trim :: "jsstring \<Rightarrow> jsstring" where
  "trim s = rev (dropWhile is_ws (rev (dropWhile is_ws s)))"

definition startsWith :: "jsstring \<Rightarrow> jschar \<Rightarrow> bool" where
  "startsWith s c = (case s of [] \<Rightarrow> False | x # _ \<Rightarrow> x = c)"

text \<open>\<open>s.lastIndexOf(c)\<close> for a one-unit needle: the last index of \<open>c\<close>, or \<open>-1\<close>.\<close>

fun lastIndexOf :: "jsstring \<Rightarrow> jschar \<Rightarrow> int" where
  "lastIndexOf [] c = -1"
| "lastIndexOf (x # xs) c =
     (let r = lastIndexOf xs c in if r \<noteq> -1 then r + 1 else if x = c then 0 else -1)"

text \<open>\<open>s.substring(0, n)\<close>; negative \<open>n\<close> counts as 0, \<open>n\<close> beyond the end as the length.\<close>

definition substring0 :: "jsstring \<Rightarrow> int \<Rightarrow> jsstring" where
  "substring0 s n = take (nat n) s"

abbreviation LBRACE :: jschar where "LBRACE \<equiv> 0x7B"
abbreviation RBRACE :: jschar where "RBRACE \<equiv> 0x7D"
abbreviation BACKTICK :: jschar where "BACKTICK \<equiv> 0x60"
abbreviation NL :: jschar where "NL \<equiv> 0x0A"
abbreviation CR :: jschar where "CR \<equiv> 0x0D"

section \<open>JavaScript values as \<open>JSON.parse\<close> produces them\<close>

text \<open>
  An object keeps its members in the order of the text.  \<open>JSON.parse\<close> lets a later
  duplicate key overwrite an earlier one, so a property read takes the last member of
  that name.  Numbers are kept as the exact value of their literal (the validator never
  looks at one).
\<close>

datatype jsval =
    JUndefined
  | JNull
  | JBool bool
  | JNum rat
  | JStr jsstring
  | JArr "jsval list"
  | JObj "(jsstring \<times> jsval) list"

datatype jstype = TUndefined | TObject | TBoolean | TNumber | TString

fun typeof :: "jsval \<Rightarrow> jstype" where
  "typeof JUndefined = TUndefined"
| "typeof JNull = TObject"
| "typeof (JBool _) = TBoolean"
| "typeof (JNum _) = TNumber"
| "typeof (JStr _) = TString"
| "typeof (JArr _) = TObject"
| "typeof (JObj _) = TObject"

fun truthy :: "jsval \<Rightarrow> bool" where
  "truthy JUndefined = False"
| "truthy JNull = False"
| "truthy (JBool b) = b"
| "truthy (JNum q) = (q \<noteq> 0)"
| "truthy (JStr s) = (s \<noteq> [])"
| "truthy (JArr _) = True"
| "truthy (JObj _) = True"

text \<open>
  \<open>v.k\<close> for the property names the source reads (\<open>primary\<close>, \<open>term\<close>, \<open>isValid\<close>, ...):
  none of them is defined on \<open>Object.prototype\<close>, \<open>Array.prototype\<close> or on a boxed
  primitive, so the read gives the own member or \<open>undefined\<close>.  On \<open>null\<close> and
  \<open>undefined\<close> JavaScript throws a TypeError; every call below is behind the source's
  guard (\<open>!data\<close>, \<open>item &&\<close>) or says so.
\<close>

fun get_prop :: "jsval \<Rightarrow> jsstring \<Rightarrow> jsval" where
  "get_prop (JObj kvs) k = (case map_of (rev kvs) k of Some v \<Rightarrow> v | None \<Rightarrow> JUndefined)"
| "get_prop _ k = JUndefined"

section \<open>The validator (services/geminiService.ts, validateKeywordResult)\<close>

text \<open>\<open>typeof v === 'string' && v.trim().length > 0\<close>\<close>

fun nonblank_string :: "jsval \<Rightarrow> bool" where
  "nonblank_string (JStr s) = (0 < length (trim s))"
| "nonblank_string _ = False"

text \<open>The predicate passed to \<open>arr.every\<close>.\<close>

definition validItem :: "jsval \<Rightarrow> bool" where
  "validItem item \<longleftrightarrow>
     truthy item \<and> typeof item = TObject
     \<and> nonblank_string (get_prop item (js ''term''))
     \<and> nonblank_string (get_prop item (js ''rationale''))"

definition validateKeywordArray :: "jsval \<Rightarrow> nat \<Rightarrow> nat \<Rightarrow> bool \<Rightarrow> bool" where
  "validateKeywordArray arr minCount maxCount required =
     (case arr of
        JArr items \<Rightarrow>
          if length items < minCount \<or> length items > maxCount then False
          else list_all validItem items
      | _ \<Rightarrow> if required then False else True)"

definition coreValid :: "jsval \<Rightarrow> bool" where
  "coreValid data \<longleftrightarrow>
     validateKeywordArray (get_prop data (js ''primary'')) 1 10 True
     \<and> validateKeywordArray (get_prop data (js ''secondary'')) 2 20 True
     \<and> validateKeywordArray (get_prop data (js ''longtail'')) 3 30 True
     \<and> nonblank_string (get_prop data (js ''competitorInsights''))"

text \<open>
  The three checks of the optional fields only write a warning to the console; the list
  below is what they print.
\<close>

definition optional_warning :: "jsval \<Rightarrow> string \<Rightarrow> nat \<Rightarrow> nat \<Rightarrow> string \<Rightarrow> string list" where
  "optional_warning data field minCount maxCount msg =
     (if truthy (get_prop data (js field))
         \<and> \<not> validateKeywordArray (get_prop data (js field)) minCount maxCount False
      then [msg] else [])"

definition optional_warnings :: "jsval \<Rightarrow> string list" where
  "optional_warnings data =
     optional_warning data ''lsiKeywords'' 5 8 ''LSI keywords present but invalid - will be ignored''
     @ optional_warning data ''questionKeywords'' 5 8
         ''Question keywords present but invalid - will be ignored''
     @ optional_warning data ''entities'' 1 50 ''Entities present but invalid - will be ignored''"

text \<open>The result and the warnings printed on the way.\<close>

definition validateKeywordResult_log :: "jsval \<Rightarrow> bool \<times> string list" where
  "validateKeywordResult_log data =
     (if \<not> truthy data \<or> typeof data \<noteq> TObject then (False, [])
      else if \<not> coreValid data then (False, [])
      else (True, optional_warnings data))"

definition validateKeywordResult :: "jsval \<Rightarrow> bool" where
  "validateKeywordResult data = fst (validateKeywordResult_log data)"

section \<open>Regular expressions\<close>

text \<open>
  The backtracking matcher of ECMAScript, as a list of successes: a matcher maps the rest
  of the input to the rests that can follow a match, in the order in which backtracking
  tries them.  The first element is the match JavaScript reports.  \<open>star_m\<close> is the
  greedy \<open>*\<close> and \<open>lazy_m\<close> the lazy \<open>*?\<close>; an iteration that consumes nothing is
  dropped, as the RepeatMatcher of the language definition does.
\<close>

type_synonym matcher = "jsstring \<Rightarrow> jsstring list"

definition chr_m :: "(jschar \<Rightarrow> bool) \<Rightarrow> matcher" where
  "chr_m P s = (case s of [] \<Rightarrow> [] | c # cs \<Rightarrow> if P c then [cs] else [])"

definition eps_m :: matcher where
  "eps_m s = [s]"

definition seq_m :: "matcher \<Rightarrow> matcher \<Rightarrow> matcher" where
  "seq_m m1 m2 s = concat (map m2 (m1 s))"

definition alt_m :: "matcher \<Rightarrow> matcher \<Rightarrow> matcher" where
  "alt_m m1 m2 s = m1 s @ m2 s"

definition opt_m :: "matcher \<Rightarrow> matcher" where
  "opt_m m = alt_m m eps_m"

function star_m :: "matcher \<Rightarrow> matcher" where
  "star_m m s = concat (map (star_m m) (filter (\<lambda>r. length r < length s) (m s))) @ [s]"
  by pat_completeness auto
termination
  by (relation "measure (\<lambda>(m, s). length s)") auto

function lazy_m :: "matcher \<Rightarrow> matcher" where
  "lazy_m m s = s # concat (map (lazy_m m) (filter (\<lambda>r. length r < length s) (m s)))"
  by pat_completeness auto
termination
  by (relation "measure (\<lambda>(m, s). length s)") auto

fun lit_m :: "jsstring \<Rightarrow> matcher" where
  "lit_m [] = eps_m"
| "lit_m (c # cs) = seq_m (chr_m (\<lambda>x. x = c)) (lit_m cs)"

text \<open>
  The flag \<open>i\<close>: two code units match when they canonicalize (upper-case) to the
  same unit.  The patterns of the source have ASCII letters only, and no unit outside
  ASCII canonicalizes into ASCII.
\<close>

definition canonicalize :: "jschar \<Rightarrow> jschar" where
  "canonicalize c = (if 0x61 \<le> c \<and> c \<le> 0x7A then c - 0x20 else c)"

fun lit_ci_m :: "jsstring \<Rightarrow> matcher" where
  "lit_ci_m [] = eps_m"
| "lit_ci_m (c # cs) = seq_m (chr_m (\<lambda>x. canonicalize x = canonicalize c)) (lit_ci_m cs)"

text \<open>
  A pattern with one capture group is given as what stands before the group, the group,
  and what stands after it.  \<open>match_at\<close> is a match attempt at the start of \<open>t\<close>:
  the matched text and the text of group 1.  \<open>regex_match\<close> is \<open>s.match(re)\<close>
  without the flag \<open>g\<close>: the first position, from the left, with a match.
\<close>

definition match_at :: "matcher \<Rightarrow> matcher \<Rightarrow> matcher \<Rightarrow> jsstring \<Rightarrow> (jsstring \<times> jsstring) option" where
  "match_at pre grp post t =
     (case [(a, b, c). a \<leftarrow> pre t, b \<leftarrow> grp a, c \<leftarrow> post b] of
        [] \<Rightarrow> None
      | (a, b, c) # _ \<Rightarrow> Some (take (length t - length c) t, take (length a - length b) a))"

fun regex_match :: "matcher \<Rightarrow> matcher \<Rightarrow> matcher \<Rightarrow> jsstring \<Rightarrow> (jsstring \<times> jsstring) option" where
  "regex_match pre grp post s =
     (case match_at pre grp post s of
        Some r \<Rightarrow> Some r
      | None \<Rightarrow> (case s of [] \<Rightarrow> None | _ # cs \<Rightarrow> regex_match pre grp post cs))"

definition any_m :: matcher where "any_m = chr_m (\<lambda>_. True)"
definition ws_m :: matcher where "ws_m = chr_m is_ws"

text \<open>\<^verbatim>\<open>/```(?:json)?\s*([\s\S]*?)\s*```/\<close>\<close>

definition re_codeblock :: "jsstring \<Rightarrow> (jsstring \<times> jsstring) option" where
  "re_codeblock = regex_match
     (seq_m (lit_m (js ''```'')) (seq_m (opt_m (lit_m (js ''json''))) (star_m ws_m)))
     (lazy_m any_m)
     (seq_m (star_m ws_m) (lit_m (js ''```'')))"

text \<open>\<^verbatim>\<open>/\{[\s\S]*\}/\<close>\<close>

definition braces_m :: matcher where
  "braces_m = seq_m (chr_m (\<lambda>x. x = LBRACE)) (seq_m (star_m any_m) (chr_m (\<lambda>x. x = RBRACE)))"

definition re_object :: "jsstring \<Rightarrow> (jsstring \<times> jsstring) option" where
  "re_object = regex_match eps_m braces_m eps_m"

text \<open>\<^verbatim>\<open>/(?:Here's|Here is|Output:|Result:)?\s*(\{[\s\S]*\})/i\<close>\<close>

definition re_prefix :: "jsstring \<Rightarrow> (jsstring \<times> jsstring) option" where
  "re_prefix = regex_match
     (seq_m (opt_m (alt_m (lit_ci_m (js ''Here's'')) (alt_m (lit_ci_m (js ''Here is''))
         (alt_m (lit_ci_m (js ''Output:'')) (lit_ci_m (js ''Result:'')))))) (star_m ws_m))
     braces_m
     eps_m"

section \<open>Global replacement\<close>

text \<open>
  \<open>s.replace(re, rep)\<close> with the flag \<open>g\<close>, for a pattern without anchors and a
  replacement without \<open>$\<close>: at each position, from the left, the first match is
  replaced and the search goes on behind it; where nothing matches, the code unit is
  copied.  After an empty match the search moves on by one unit.
\<close>

function replace_all :: "matcher \<Rightarrow> jsstring \<Rightarrow> jsstring \<Rightarrow> jsstring" where
  "replace_all m rep s =
     (case m s of
        [] \<Rightarrow> (case s of [] \<Rightarrow> [] | c # cs \<Rightarrow> c # replace_all m rep cs)
      | r # _ \<Rightarrow>
          if length r < length s then rep @ replace_all m rep r
          else (case s of [] \<Rightarrow> rep | c # cs \<Rightarrow> rep @ c # replace_all m rep cs))"
  by pat_completeness auto
termination
  by (relation "measure (\<lambda>(m, rep, s). length s)") auto

text \<open>\<^verbatim>\<open>/(\n\s*){3,}/g\<close>\<close>

definition nl_ws_m :: matcher where
  "nl_ws_m = seq_m (chr_m (\<lambda>x. x = NL)) (star_m ws_m)"

definition nl_runs_m :: matcher where
  "nl_runs_m = seq_m nl_ws_m (seq_m nl_ws_m (seq_m nl_ws_m (star_m nl_ws_m)))"

text \<open>\<^verbatim>\<open>/(\r\n|\n|\r){3,}/gm\<close>\<close>

definition line_break_m :: matcher where
  "line_break_m = alt_m (lit_m [CR, NL]) (alt_m (chr_m (\<lambda>x. x = NL)) (chr_m (\<lambda>x. x = CR)))"

definition line_breaks_m :: matcher where
  "line_breaks_m =
     seq_m line_break_m (seq_m line_break_m (seq_m line_break_m (star_m line_break_m)))"

section \<open>\<open>JSON.parse\<close>\<close>

text \<open>
  A recursive-descent reader of the JSON grammar (ECMA-404), which is what \<open>JSON.parse\<close>
  accepts.  The recursion is on a counter that starts at twice the length of the text
  plus two; a call consumes a code unit before it recurses twice, so the counter never
  runs out first (\<open>parse_value_fuel\<close> below: any larger counter gives the same result).
\<close>

definition json_ws :: "jschar \<Rightarrow> bool" where
  "json_ws c \<longleftrightarrow> c = 0x20 \<or> c = 0x09 \<or> c = 0x0A \<or> c = 0x0D"

definition skip_ws :: "jsstring \<Rightarrow> jsstring" where
  "skip_ws = dropWhile json_ws"

definition is_digit :: "jschar \<Rightarrow> bool" where
  "is_digit c \<longleftrightarrow> 0x30 \<le> c \<and> c \<le> 0x39"

definition hex_val :: "jschar \<Rightarrow> nat option" where
  "hex_val c =
     (if 0x30 \<le> c \<and> c \<le> 0x39 then Some (unat c - 0x30)
      else if 0x41 \<le> c \<and> c \<le> 0x46 then Some (unat c - 0x37)
      else if 0x61 \<le> c \<and> c \<le> 0x66 then Some (unat c - 0x57)
      else None)"

definition unescape :: "jschar \<Rightarrow> jschar option" where
  "unescape e =
     (if e = 0x22 \<or> e = 0x5C \<or> e = 0x2F then Some e
      else if e = 0x62 then Some 0x08
      else if e = 0x66 then Some 0x0C
      else if e = 0x6E then Some 0x0A
      else if e = 0x72 then Some 0x0D
      else if e = 0x74 then Some 0x09
      else None)"

fun parse_chars :: "jsstring \<Rightarrow> (jsstring \<times> jsstring) option" where
  "parse_chars [] = None"
| "parse_chars (c # cs) =
     (if c = 0x22 then Some ([], cs)
      else if c = 0x5C then
        (case cs of
           [] \<Rightarrow> None
         | e # es \<Rightarrow>
             if e = 0x75 then
               (case es of
                  h1 # h2 # h3 # h4 # rest \<Rightarrow>
                    (case (hex_val h1, hex_val h2, hex_val h3, hex_val h4) of
                       (Some a, Some b, Some c, Some d) \<Rightarrow>
                         (case parse_chars rest of
                            Some (str, r) \<Rightarrow> Some (of_nat (((a * 16 + b) * 16 + c) * 16 + d) # str, r)
                          | None \<Rightarrow> None)
                     | _ \<Rightarrow> None)
                | _ \<Rightarrow> None)
             else
               (case unescape e of
                  Some u \<Rightarrow>
                    (case parse_chars es of Some (str, r) \<Rightarrow> Some (u # str, r) | None \<Rightarrow> None)
                | None \<Rightarrow> None))
      else if c < 0x20 then None
      else (case parse_chars cs of Some (str, r) \<Rightarrow> Some (c # str, r) | None \<Rightarrow> None))"

definition digits_val :: "jsstring \<Rightarrow> nat" where
  "digits_val ds = foldl (\<lambda>n d. 10 * n + (unat d - 0x30)) 0 ds"

definition parse_number :: "jsstring \<Rightarrow> (rat \<times> jsstring) option" where
  "parse_number s =
     (let neg = startsWith s 0x2D;
          s1 = (if neg then tl s else s);
          ip = takeWhile is_digit s1;
          s2 = dropWhile is_digit s1;
          has_frac = startsWith s2 0x2E;
          fp = (if has_frac then takeWhile is_digit (tl s2) else []);
          s3 = (if has_frac then dropWhile is_digit (tl s2) else s2);
          has_exp = (startsWith s3 0x65 \<or> startsWith s3 0x45);
          s4 = (if has_exp then tl s3 else s3);
          eneg = (has_exp \<and> startsWith s4 0x2D);
          s5 = (if has_exp \<and> (startsWith s4 0x2D \<or> startsWith s4 0x2B) then tl s4 else s4);
          ep = (if has_exp then takeWhile is_digit s5 else []);
          s6 = (if has_exp then dropWhile is_digit s5 else s3);
          mant = (of_nat (digits_val ip) + of_nat (digits_val fp) / 10 ^ length fp :: rat);
          scaled = (if eneg then mant / 10 ^ digits_val ep else mant * 10 ^ digits_val ep)
      in if ip = [] \<or> (1 < length ip \<and> hd ip = 0x30) \<or> (has_frac \<and> fp = []) \<or> (has_exp \<and> ep = [])
         then None
         else Some (if neg then - scaled else scaled, s6))"

definition strip_prefix :: "jsstring \<Rightarrow> jsstring \<Rightarrow> jsstring option" where
  "strip_prefix p s = (if take (length p) s = p then Some (drop (length p) s) else None)"

fun parse_value :: "nat \<Rightarrow> jsstring \<Rightarrow> (jsval \<times> jsstring) option"
  and parse_elements :: "nat \<Rightarrow> jsstring \<Rightarrow> (jsval list \<times> jsstring) option"
  and parse_members :: "nat \<Rightarrow> jsstring \<Rightarrow> ((jsstring \<times> jsval) list \<times> jsstring) option"
where
  "parse_value 0 s = None"
| "parse_value (Suc n) s =
     (case s of
        [] \<Rightarrow> None
      | c # cs \<Rightarrow>
          if c = LBRACE then
            (case skip_ws cs of
               [] \<Rightarrow> None
             | d # ds \<Rightarrow>
                 if d = RBRACE then Some (JObj [], ds)
                 else (case parse_members n (d # ds) of
                         Some (kvs, r) \<Rightarrow> Some (JObj kvs, r)
                       | None \<Rightarrow> None))
          else if c = 0x5B then
            (case skip_ws cs of
               [] \<Rightarrow> None
             | d # ds \<Rightarrow>
                 if d = 0x5D then Some (JArr [], ds)
                 else (case parse_elements n (d # ds) of
                         Some (vs, r) \<Rightarrow> Some (JArr vs, r)
                       | None \<Rightarrow> None))
          else if c = 0x22 then
            (case parse_chars cs of Some (str, r) \<Rightarrow> Some (JStr str, r) | None \<Rightarrow> None)
          else if c = 0x74 then
            (case strip_prefix (js ''true'') s of Some r \<Rightarrow> Some (JBool True, r) | None \<Rightarrow> None)
          else if c = 0x66 then
            (case strip_prefix (js ''false'') s of Some r \<Rightarrow> Some (JBool False, r) | None \<Rightarrow> None)
          else if c = 0x6E then
            (case strip_prefix (js ''null'') s of Some r \<Rightarrow> Some (JNull, r) | None \<Rightarrow> None)
          else
            (case parse_number s of Some (q, r) \<Rightarrow> Some (JNum q, r) | None \<Rightarrow> None))"
| "parse_elements 0 s = None"
| "parse_elements (Suc n) s =
     (case parse_value n s of
        None \<Rightarrow> None
      | Some (v, r) \<Rightarrow>
          (case skip_ws r of
             [] \<Rightarrow> None
           | d # ds \<Rightarrow>
               if d = 0x5D then Some ([v], ds)
               else if d = 0x2C then
                 (case parse_elements n (skip_ws ds) of
                    Some (vs, r') \<Rightarrow> Some (v # vs, r')
                  | None \<Rightarrow> None)
               else None))"
| "parse_members 0 s = None"
| "parse_members (Suc n) s =
     (case s of
        [] \<Rightarrow> None
      | q # cs \<Rightarrow>
          if q \<noteq> 0x22 then None
          else
            (case parse_chars cs of
               None \<Rightarrow> None
             | Some (k, r) \<Rightarrow>
                 (case skip_ws r of
                    [] \<Rightarrow> None
                  | colon # r1 \<Rightarrow>
                      if colon \<noteq> 0x3A then None
                      else
                        (case parse_value n (skip_ws r1) of
                           None \<Rightarrow> None
                         | Some (v, r2) \<Rightarrow>
                             (case skip_ws r2 of
                                [] \<Rightarrow> None
                              | d # ds \<Rightarrow>
                                  if d = RBRACE then Some ([(k, v)], ds)
                                  else if d = 0x2C then
                                    (case parse_members n (skip_ws ds) of
                                       Some (kvs, r') \<Rightarrow> Some ((k, v) # kvs, r')
                                     | None \<Rightarrow> None)
                                  else None)))))"

definition JSON_parse :: "jsstring \<Rightarrow> jsval option" where
  "JSON_parse s =
     (case parse_value (2 * length s + 2) (skip_ws s) of
        None \<Rightarrow> None
      | Some (v, r) \<Rightarrow> if skip_ws r = [] then Some v else None)"

section \<open>From the response text to the result (generateKeywords, generateKeywordsWithOpenAI)\<close>

datatype gen_error =
    EmptyResponse
  | NoJsonFound
  | JsonParseError
  | InvalidKeywordCounts
  | IncompleteKeywordData
  | TypeError
  | UnresolvedImport string

text \<open>
  Strategies 3 and 4, the inner \<open>else\<close> branch.  \<open>objectMatch[0]\<close> is the matched text,
  \<open>afterPrefixMatch[1]\<close> the group.
\<close>

definition strategy34 :: "jsstring \<Rightarrow> gen_error + jsstring" where
  "strategy34 jsonText =
     (case re_object jsonText of
        Some (m0, g1) \<Rightarrow> Inr m0
      | None \<Rightarrow>
          (case re_prefix jsonText of
             Some (m0, g1) \<Rightarrow> if g1 \<noteq> [] then Inr g1 else Inl NoJsonFound
           | None \<Rightarrow> Inl NoJsonFound))"

text \<open>
  The four strategies; the statements are the same in geminiService.ts (1294-1324) and
  in openaiService.ts (91-116).  \<open>jsonBlockMatch && jsonBlockMatch[1]\<close> fails on no match
  and on an empty group alike.
\<close>

definition extract_json :: "jsstring \<Rightarrow> gen_error + jsstring" where
  "extract_json jsonText =
     (if startsWith jsonText LBRACE then Inr jsonText
      else
        (case re_codeblock jsonText of
           Some (m0, g1) \<Rightarrow> if g1 \<noteq> [] then Inr (trim g1) else strategy34 jsonText
         | None \<Rightarrow> strategy34 jsonText))"

text \<open>The extractor with strategies 1 to 3 only, to compare with.\<close>

definition extract_json3 :: "jsstring \<Rightarrow> gen_error + jsstring" where
  "extract_json3 jsonText =
     (if startsWith jsonText LBRACE then Inr jsonText
      else
        (case re_codeblock jsonText of
           Some (m0, g1) \<Rightarrow>
             if g1 \<noteq> [] then Inr (trim g1)
             else (case re_object jsonText of Some (m0, g1) \<Rightarrow> Inr m0 | None \<Rightarrow> Inl NoJsonFound)
         | None \<Rightarrow>
             (case re_object jsonText of Some (m0, g1) \<Rightarrow> Inr m0 | None \<Rightarrow> Inl NoJsonFound)))"

text \<open>geminiService.ts 1326-1333: cut what follows the last closing brace.\<close>

definition cleanup_trailing :: "jsstring \<Rightarrow> jsstring" where
  "cleanup_trailing jsonText =
     (let lastBrace = lastIndexOf jsonText RBRACE
      in if lastBrace \<noteq> -1 \<and> lastBrace < int (length jsonText) - 1
         then substring0 jsonText (lastBrace + 1)
         else jsonText)"

text \<open>
  The Gemini path, from \<open>response.text\<close> to the string handed to \<open>JSON.parse\<close>, and to
  the parsed value.
\<close>

definition gemini_json_text :: "jsstring \<Rightarrow> gen_error + jsstring" where
  "gemini_json_text response_text =
     (let text = trim response_text
      in if text = [] then Inl EmptyResponse
         else (case extract_json (trim text) of
                 Inl e \<Rightarrow> Inl e
               | Inr jsonText \<Rightarrow> Inr (cleanup_trailing (trim jsonText))))"

definition gemini_parse :: "jsstring \<Rightarrow> gen_error + jsval" where
  "gemini_parse response_text =
     (case gemini_json_text response_text of
        Inl e \<Rightarrow> Inl e
      | Inr jsonText \<Rightarrow>
          (case JSON_parse jsonText of None \<Rightarrow> Inl JsonParseError | Some v \<Rightarrow> Inr v))"

text \<open>
  What the caller adds to the result: the grounding chunks of the response, the content
  type and the detected language.
\<close>

record provenance =
  searchReferences :: jsval
  contentType :: jsstring
  detectedLanguage :: jsstring

text \<open>
  The own enumerable members that the spread \<open>{...parsedResult, ...}\<close> copies.  A value
  that passed the validator is an object.
\<close>

fun own_members :: "jsval \<Rightarrow> (jsstring \<times> jsval) list" where
  "own_members (JObj kvs) = kvs"
| "own_members _ = []"

text \<open>
  geminiService.ts 1353-1379.  On a rejected value the message reads
  \<open>parsedResult.primary?.length\<close>, which throws a TypeError on \<open>null\<close>.
\<close>

definition gemini_finish :: "provenance \<Rightarrow> jsval \<Rightarrow> gen_error + jsval" where
  "gemini_finish prov parsedResult =
     (if \<not> validateKeywordResult parsedResult then
        (if parsedResult = JNull then Inl TypeError else Inl InvalidKeywordCounts)
      else Inr (JObj (own_members parsedResult @
             [(js ''searchReferences'', searchReferences prov),
              (js ''contentType'', JStr (contentType prov)),
              (js ''detectedLanguage'', JStr (detectedLanguage prov))])))"

definition generateKeywords :: "provenance \<Rightarrow> jsstring \<Rightarrow> gen_error + jsval" where
  "generateKeywords prov response_text =
     (case gemini_parse response_text of
        Inl e \<Rightarrow> Inl e
      | Inr parsedResult \<Rightarrow> gemini_finish prov parsedResult)"

text \<open>
  The OpenAI path.  openaiService.ts takes five names from geminiService.ts (line 3):
  detectLanguage, detectContentType, generatePrompt, generateBanglaPrompt and
  validateKeywordResult.  geminiService.ts exports one name, generateKeywords (line
  1219); the five are constants local to it.  ECMAScript resolves the imported names
  when it links the modules, before a statement of either runs, and a name that the
  module does not export is a SyntaxError there: no statement of openaiService.ts is
  evaluated.  (Where a build binds such a name to \<open>undefined\<close> instead, the first call of
  one, \<open>detectLanguage(articleContent)\<close> at line 37, throws before the request is sent.)
\<close>

definition geminiService_exports :: "string list" where
  "geminiService_exports = [''generateKeywords'']"

definition openaiService_imports :: "string list" where
  "openaiService_imports =
     [''detectLanguage'', ''detectContentType'', ''generatePrompt'', ''generateBanglaPrompt'',
      ''validateKeywordResult'']"

definition unresolved_imports :: "string list" where
  "unresolved_imports =
     filter (\<lambda>name. name \<notin> set geminiService_exports) openaiService_imports"

text \<open>
  openaiService.ts 77-127, from the text of the completion to the parsed value.  These
  statements have no cut after the last brace.
\<close>

definition openai_json_text :: "jsstring \<Rightarrow> gen_error + jsstring" where
  "openai_json_text response_text =
     (if response_text = [] then Inl EmptyResponse else extract_json (trim response_text))"

definition openai_parse :: "jsstring \<Rightarrow> gen_error + jsval" where
  "openai_parse response_text =
     (case openai_json_text response_text of
        Inl e \<Rightarrow> Inl e
      | Inr jsonText \<Rightarrow>
          (case JSON_parse jsonText of None \<Rightarrow> Inl JsonParseError | Some v \<Rightarrow> Inr v))"

text \<open>
  \<open>o.k = v\<close> on a value that \<open>JSON.parse\<close> produced.  A module is strict code, where the
  assignment throws a TypeError on \<open>null\<close> and on a primitive value.  An array takes the
  property beside its elements, where \<open>JArr\<close> has no place for it.
\<close>

fun set_prop :: "jsval \<Rightarrow> jsstring \<Rightarrow> jsval \<Rightarrow> jsval option" where
  "set_prop (JObj kvs) k v = Some (JObj (kvs @ [(k, v)]))"
| "set_prop (JArr xs) k v = Some (JArr xs)"
| "set_prop _ k v = None"

text \<open>
  openaiService.ts 129-153, the statements after the parse.  They call the imported
  validateKeywordResult and read \<open>isValid\<close> and \<open>errors\<close> from what it returns, and they
  use what the imported detectLanguage returned at line 37.  Neither name resolves in
  this repository, so both are parameters here: \<open>validate\<close> is the function called at line
  130 and \<open>language\<close> the value of line 37.  Reading a property of \<open>null\<close> or \<open>undefined\<close>
  is a TypeError, and so is \<open>errors.join\<close> where \<open>errors\<close> is no array.
\<close>

definition openai_finish :: "(jsval \<Rightarrow> jsval) \<Rightarrow> jsstring \<Rightarrow> jsval \<Rightarrow> gen_error + jsval" where
  "openai_finish validate language parsedResult =
     (let validationResult = validate parsedResult
      in if validationResult = JUndefined \<or> validationResult = JNull then Inl TypeError
         else if \<not> truthy (get_prop validationResult (js ''isValid'')) then
           (case get_prop validationResult (js ''errors'') of
              JArr errors \<Rightarrow> Inl IncompleteKeywordData
            | _ \<Rightarrow> Inl TypeError)
         else if parsedResult = JUndefined \<or> parsedResult = JNull then Inl TypeError
         else if \<not> truthy (get_prop parsedResult (js ''detectedLanguage'')) then
           (case set_prop parsedResult (js ''detectedLanguage'') (JStr language) of
              Some r \<Rightarrow> Inr r
            | None \<Rightarrow> Inl TypeError)
         else Inr parsedResult)"

text \<open>
  generateKeywordsWithOpenAI: the module has to link before the function can run.  The
  error carries the first name that does not resolve.
\<close>

definition generateKeywordsWithOpenAI ::
  "(jsval \<Rightarrow> jsval) \<Rightarrow> jsstring \<Rightarrow> jsstring \<Rightarrow> gen_error + jsval" where
  "generateKeywordsWithOpenAI validate language response_text =
     (case unresolved_imports of
        name # names \<Rightarrow> Inl (UnresolvedImport name)
      | [] \<Rightarrow>
          (case openai_parse response_text of
             Inl e \<Rightarrow> Inl e
           | Inr parsedResult \<Rightarrow> openai_finish validate language parsedResult))"

section \<open>The document\<close>

text \<open>
  The tree that \<open>DOMParser\<close> builds: an element has its tag (the local name, in lower
  case), its attributes and its children; a text node has its data.  A document is the
  list of the children of the document node.
\<close>

datatype node =
    Element jsstring "(jsstring \<times> jsstring) list" "node list"
  | TextNode jsstring

type_synonym document = "node list"

fun is_element :: "node \<Rightarrow> bool" where
  "is_element (Element _ _ _) = True"
| "is_element (TextNode _) = False"

fun tag_of :: "node \<Rightarrow> jsstring" where
  "tag_of (Element t _ _) = t"
| "tag_of (TextNode _) = []"

fun children :: "node \<Rightarrow> node list" where
  "children (Element _ _ cs) = cs"
| "children (TextNode _) = []"

fun get_attr :: "node \<Rightarrow> jsstring \<Rightarrow> jsstring option" where
  "get_attr (Element _ as _) a = map_of as a"
| "get_attr (TextNode _) a = None"

text \<open>\<open>el.className\<close> and \<open>el.id\<close>: the attribute, or the empty string.\<close>

definition className :: "node \<Rightarrow> jsstring" where
  "className e = (case get_attr e (js ''class'') of Some v \<Rightarrow> v | None \<Rightarrow> [])"

definition element_id :: "node \<Rightarrow> jsstring" where
  "element_id e = (case get_attr e (js ''id'') of Some v \<Rightarrow> v | None \<Rightarrow> [])"

fun textContent :: "node \<Rightarrow> jsstring" where
  "textContent (TextNode s) = s"
| "textContent (Element _ _ cs) = concat (map textContent cs)"

text \<open>
  \<open>el.innerText\<close>: the elements of a document made by \<open>DOMParser\<close> are not rendered,
  and for an element that is not rendered \<open>innerText\<close> is \<open>textContent\<close>.
\<close>

definition innerText :: "node \<Rightarrow> jsstring" where
  "innerText e = textContent e"

text \<open>The element and the elements below it, in tree order; the elements below it.\<close>

fun subtree_elements :: "node \<Rightarrow> node list" where
  "subtree_elements (TextNode _) = []"
| "subtree_elements (Element t as cs) = Element t as cs # concat (map subtree_elements cs)"

definition descendants :: "node \<Rightarrow> node list" where
  "descendants e = concat (map subtree_elements (children e))"

definition document_elements :: "document \<Rightarrow> node list" where
  "document_elements doc = concat (map subtree_elements doc)"

text \<open>
  \<open>doc.querySelectorAll('script, style, ..., [aria-hidden="true"]').forEach(el => el.remove())\<close>
\<close>

definition noise_tags :: "jsstring list" where
  "noise_tags = [js ''script'', js ''style'', js ''nav'', js ''header'', js ''footer'',
     js ''aside'', js ''form'', js ''noscript'', js ''svg'']"

definition removed :: "node \<Rightarrow> bool" where
  "removed n \<longleftrightarrow> is_element n \<and>
     (tag_of n \<in> set noise_tags \<or> get_attr n (js ''aria-hidden'') = Some (js ''true''))"

fun strip_node :: "node \<Rightarrow> node" where
  "strip_node (TextNode s) = TextNode s"
| "strip_node (Element t as cs) = Element t as (map strip_node (filter (\<lambda>c. \<not> removed c) cs))"

definition strip_noise :: "document \<Rightarrow> document" where
  "strip_noise doc = map strip_node (filter (\<lambda>c. \<not> removed c) doc)"

text \<open>
  \<open>doc.title\<close>: the child text content of the first \<open>title\<close> element, with ASCII white
  space stripped and collapsed.
\<close>

definition ascii_ws :: "jschar \<Rightarrow> bool" where
  "ascii_ws c \<longleftrightarrow> c = 0x09 \<or> c = 0x0A \<or> c = 0x0C \<or> c = 0x0D \<or> c = 0x20"

fun collapse_from :: "bool \<Rightarrow> jsstring \<Rightarrow> jsstring" where
  "collapse_from pending [] = []"
| "collapse_from pending (c # cs) =
     (if ascii_ws c then collapse_from True cs
      else (if pending then [0x20] else []) @ c # collapse_from False cs)"

definition strip_and_collapse :: "jsstring \<Rightarrow> jsstring" where
  "strip_and_collapse s = collapse_from False (dropWhile ascii_ws s)"

fun child_text :: "node \<Rightarrow> jsstring" where
  "child_text (TextNode s) = s"
| "child_text (Element _ _ cs) = concat (map (\<lambda>c. case c of TextNode s \<Rightarrow> s | _ \<Rightarrow> []) cs)"

definition document_title :: "document \<Rightarrow> jsstring" where
  "document_title doc =
     (case find (\<lambda>e. tag_of e = js ''title'') (document_elements doc) of
        Some t \<Rightarrow> strip_and_collapse (child_text t)
      | None \<Rightarrow> [])"

text \<open>\<open>(doc.querySelector('h1')?.innerText || doc.title).trim()\<close>\<close>

definition page_title :: "document \<Rightarrow> jsstring" where
  "page_title doc =
     trim (case find (\<lambda>e. tag_of e = js ''h1'') (document_elements doc) of
             Some h \<Rightarrow> if innerText h \<noteq> [] then innerText h else document_title doc
           | None \<Rightarrow> document_title doc)"

text \<open>
  \<open>doc.body\<close>: the first child of the \<open>html\<close> element that is a \<open>body\<close> or a \<open>frameset\<close>
  element, or \<open>null\<close>.
\<close>

definition document_body :: "document \<Rightarrow> node option" where
  "document_body doc =
     (case find is_element doc of
        Some documentElement \<Rightarrow>
          if tag_of documentElement = js ''html''
          then find (\<lambda>c. is_element c \<and> (tag_of c = js ''body'' \<or> tag_of c = js ''frameset''))
                 (children documentElement)
          else None
      | None \<Rightarrow> None)"

text \<open>\<open>x.includes(p)\<close>, which is also what \<open>[attr*="p"]\<close> asks of the attribute.\<close>

fun str_includes :: "jsstring \<Rightarrow> jsstring \<Rightarrow> bool" where
  "str_includes [] p \<longleftrightarrow> p = []"
| "str_includes (c # cs) p \<longleftrightarrow> prefix p (c # cs) \<or> str_includes cs p"

definition attr_includes :: "node \<Rightarrow> string \<Rightarrow> string \<Rightarrow> bool" where
  "attr_includes e a p =
     (case get_attr e (js a) of Some v \<Rightarrow> str_includes v (js p) | None \<Rightarrow> False)"

text \<open>
  \<open>article, main, div[class*="content"], div[class*="post"], div[id*="content"], div[id*="post"]\<close>
\<close>

definition is_candidate :: "node \<Rightarrow> bool" where
  "is_candidate e \<longleftrightarrow>
     tag_of e = js ''article'' \<or> tag_of e = js ''main''
     \<or> (tag_of e = js ''div''
         \<and> (attr_includes e ''class'' ''content'' \<or> attr_includes e ''class'' ''post''
            \<or> attr_includes e ''id'' ''content'' \<or> attr_includes e ''id'' ''post''))"

definition candidates :: "document \<Rightarrow> node list" where
  "candidates doc = filter is_candidate (document_elements doc)"

section \<open>calculateScore\<close>

text \<open>
  \<open>toLowerCase\<close>, as far as the test below can see it: the test looks for ASCII words,
  and the only code units that lower into ASCII are the ASCII capitals, U+0130 and the
  Kelvin sign U+212A.
\<close>

definition lower_unit :: "jschar \<Rightarrow> jsstring" where
  "lower_unit c =
     (if 0x41 \<le> c \<and> c \<le> 0x5A then [c + 0x20]
      else if c = 0x130 then [0x69, 0x307]
      else if c = 0x212A then [0x6B]
      else [c])"

definition toLowerCase :: "jsstring \<Rightarrow> jsstring" where
  "toLowerCase s = concat (map lower_unit s)"

definition noise_words :: "jsstring list" where
  "noise_words = [js ''comment'', js ''share'', js ''related'', js ''ad'', js ''footer'',
     js ''header'', js ''menu'', js ''nav'', js ''sidebar'', js ''promo'', js ''social'',
     js ''widget'']"

definition matches_noise :: "node \<Rightarrow> bool" where
  "matches_noise e \<longleftrightarrow>
     list_ex (str_includes (toLowerCase (className e @ [0x20] @ element_id e))) noise_words"

text \<open>
  The score is a JavaScript number, an IEEE 754 binary64 value; the finite ones are kept
  here as the rationals they are.  \<open>round64\<close> rounds a rational to the nearest such value,
  a tie to the one with the even significand: the significand is the quotient by the
  power of two that puts it between \<open>2^52\<close> and \<open>2^53\<close>, rounded to an integer.  The bound on
  the exponent is left out: no quotient, difference or product of lengths of strings
  comes near it.
\<close>

definition nearest_even :: "rat \<Rightarrow> int" where
  "nearest_even y =
     (let f = \<lfloor>y\<rfloor>; d = y - of_int f
      in if d < 1 / 2 then f else if 1 / 2 < d then f + 1 else if even f then f else f + 1)"

text \<open>For \<open>x > 0\<close>, the \<open>e\<close> with \<open>2^e \<le> x < 2^(e+1)\<close>.\<close>

definition binade :: "rat \<Rightarrow> int" where
  "binade x =
     (let (p, q) = quotient_of x; k = bitlen p - bitlen q
      in if 2 powi k \<le> x then k else k - 1)"

definition round64 :: "rat \<Rightarrow> rat" where
  "round64 x =
     (if x = 0 then 0
      else let e = binade \<bar>x\<bar> - 52 in of_int (nearest_even (x / 2 powi e)) * 2 powi e)"

text \<open>
  calculateScore.  The sums are sums of lengths, integers below \<open>2^53\<close>, which JavaScript
  adds exactly; the quotient \<open>linkTextLength / totalTextLength\<close>, the difference
  \<open>1 - linkDensity\<close> and the product are rounded, and \<open>0.35\<close> is the value nearest to 35/100.
\<close>

definition block_score :: "node \<Rightarrow> nat" where
  "block_score p =
     (if textContent p \<noteq> [] \<and> 25 < length (trim (textContent p))
      then length (trim (textContent p)) else 0)"

definition calculateScore :: "node \<Rightarrow> rat" where
  "calculateScore element =
     (if matches_noise element then - 100
      else
        let blocks = filter (\<lambda>d. tag_of d \<in> {js ''p'', js ''li'', js ''blockquote'', js ''pre''})
                       (descendants element);
            score = sum_list (map block_score blocks)
                    + length (filter (\<lambda>c. c = 0x2C) (textContent element)) * 10;
            linkTextLength = sum_list (map (\<lambda>a. length (textContent a))
                               (filter (\<lambda>d. tag_of d = js ''a'') (descendants element)));
            totalTextLength = (if textContent element = [] then 1 else length (textContent element));
            linkDensity = round64 (of_nat linkTextLength / of_nat totalTextLength)
        in if linkDensity > round64 (35 / 100)
           then round64 (of_nat score * round64 (1 - linkDensity))
           else of_nat score)"

section \<open>extractCleanText\<close>

definition block_tags :: "jsstring list" where
  "block_tags = [js ''p'', js ''h1'', js ''h2'', js ''h3'', js ''h4'', js ''h5'', js ''h6'',
     js ''li'', js ''blockquote'', js ''pre'']"

definition block_text :: "node \<Rightarrow> jsstring" where
  "block_text el =
     (if tag_of el \<in> set block_tags
      then (let blockText = trim (innerText el)
            in if blockText \<noteq> [] then blockText @ [NL, NL] else [])
      else [])"

definition extractCleanText :: "node \<Rightarrow> jsstring" where
  "extractCleanText element =
     replace_all nl_runs_m [NL, NL] (trim (concat (map block_text (descendants element))))"

section \<open>The extraction in handleFetchAndGenerate\<close>

datatype fetch_error = ContentTooShortError | NullElementError

text \<open>
  The candidates, or the body alone; the body can be \<open>null\<close> after the removal, and
  scoring \<open>null\<close> throws.
\<close>

definition elementsToScore :: "document \<Rightarrow> node option list" where
  "elementsToScore doc =
     (if candidates doc \<noteq> [] then map Some (candidates doc) else [document_body doc])"

fun select_loop ::
  "node option \<times> rat \<Rightarrow> node option list \<Rightarrow> fetch_error + node option \<times> rat" where
  "select_loop best [] = Inr best"
| "select_loop best (None # es) = Inl NullElementError"
| "select_loop (bestElement, bestScore) (Some element # es) =
     (let score = calculateScore element
      in select_loop (if score > bestScore then (Some element, score)
                      else (bestElement, bestScore)) es)"

definition best_element :: "document \<Rightarrow> fetch_error + node option" where
  "best_element doc =
     (case select_loop (document_body doc, - 1) (elementsToScore doc) of
        Inl e \<Rightarrow> Inl e
      | Inr (bestElement, bestScore) \<Rightarrow> Inr bestElement)"

definition article_text :: "node \<Rightarrow> jsstring" where
  "article_text bestElement =
     (let content = extractCleanText bestElement
      in if length content < 300 then trim (innerText bestElement) else content)"

definition fetched_content :: "document \<Rightarrow> fetch_error + jsstring" where
  "fetched_content html_doc =
     (let doc = strip_noise html_doc; title = page_title doc
      in case best_element doc of
           Inl e \<Rightarrow> Inl e
         | Inr None \<Rightarrow> Inl NullElementError
         | Inr (Some bestElement) \<Rightarrow>
             Inr (title @ [NL, NL] @ replace_all line_breaks_m [NL, NL] (article_text bestElement)))"

definition extractArticle :: "document \<Rightarrow> fetch_error + jsstring" where
  "extractArticle html_doc =
     (case fetched_content html_doc of
        Inl e \<Rightarrow> Inl e
      | Inr fetchedContent \<Rightarrow>
          if length (trim fetchedContent) < 500 then Inl ContentTooShortError
          else Inr fetchedContent)"

section \<open>Notions used in the proofs\<close>

text \<open>Every rest a matcher returns is a suffix of its input.\<close>

definition suffix_closed :: "matcher \<Rightarrow> bool" where
  "suffix_closed m \<longleftrightarrow> (\<forall>s r. r \<in> set (m s) \<longrightarrow> suffix r s)"

text \<open>The text holds three backticks in a row.\<close>

fun has_fence :: "jsstring \<Rightarrow> bool" where
  "has_fence (a # b # c # r) \<longleftrightarrow>
     (a = BACKTICK \<and> b = BACKTICK \<and> c = BACKTICK) \<or> has_fence (b # c # r)"
| "has_fence _ \<longleftrightarrow> False"

text \<open>
  A fenced code block around \<open>j\<close>: the fence, the tag, white space, \<open>j\<close>, white space,
  the fence.
\<close>

definition fence :: jsstring where
  "fence = [BACKTICK, BACKTICK, BACKTICK]"

definition fenced :: "jsstring \<Rightarrow> jsstring \<Rightarrow> jsstring \<Rightarrow> jsstring \<Rightarrow> jsstring" where
  "fenced tag w1 j w2 = fence @ tag @ w1 @ j @ w2 @ fence"

text \<open>What stands after the group in the code-block pattern.\<close>

definition post_fence :: matcher where
  "post_fence = seq_m (star_m ws_m) (lit_m (js ''```''))"

text \<open>
  Three newlines in a row; the newlines a text starts with; and a bound on them that the
  proof about \<open>extractCleanText\<close> carries along.
\<close>

fun has_nl3 :: "jsstring \<Rightarrow> bool" where
  "has_nl3 (a # b # c # r) \<longleftrightarrow> (a = NL \<and> b = NL \<and> c = NL) \<or> has_nl3 (b # c # r)"
| "has_nl3 _ \<longleftrightarrow> False"

definition lead_nl :: "jsstring \<Rightarrow> nat" where
  "lead_nl s = length (takeWhile (\<lambda>x. x = NL) s)"

definition nl_bound :: "jsstring \<Rightarrow> nat" where
  "nl_bound s = (if seq_m nl_ws_m nl_ws_m s \<noteq> [] then 2 else if nl_ws_m s \<noteq> [] then 1 else 0)"

text \<open>The sum that calculateScore calls \<open>linkTextLength\<close>.\<close>

definition link_text_length :: "node \<Rightarrow> nat" where
  "link_text_length e =
     sum_list (map (\<lambda>a. length (textContent a))
       (filter (\<lambda>d. tag_of d = js ''a'') (descendants e)))"

section \<open>Sample values\<close>

definition kw :: "string \<Rightarrow> string \<Rightarrow> jsval" where
  "kw t r = JObj [(js ''term'', JStr (js t)), (js ''rationale'', JStr (js r))]"

text \<open>A parsed response with \<open>p\<close>, \<open>s\<close> and \<open>l\<close> keywords in the required categories.\<close>

definition sample_result :: "nat \<Rightarrow> nat \<Rightarrow> nat \<Rightarrow> (jsstring \<times> jsval) list" where
  "sample_result p s l =
     [(js ''primary'', JArr (replicate p (kw ''gold price'' ''main topic''))),
      (js ''secondary'', JArr (replicate s (kw ''gold market'' ''supporting topic''))),
      (js ''longtail'', JArr (replicate l (kw ''gold price in bangladesh today'' ''user query''))),
      (js ''competitorInsights'', JStr (js ''x''))]"

definition sample_provenance :: provenance where
  "sample_provenance =
     \<lparr>searchReferences = JArr [], contentType = js ''News Article'',
      detectedLanguage = js ''english''\<rparr>"

text \<open>Valid required categories, and an optional category with an invalid item.\<close>

definition sample_blank_entity :: jsval where
  "sample_blank_entity =
     JObj (sample_result 1 2 3 @ [(js ''entities'', JArr [kw ''  '' ''named entity''])])"

definition sample_bad_lsi :: jsval where
  "sample_bad_lsi =
     JObj (sample_result 1 2 3 @ [(js ''lsiKeywords'', JArr [kw [] ''related term''])])"

text \<open>Response texts: pure JSON, and JSON followed by a remark.\<close>

definition sample_response :: jsstring where
  \<open>sample_response = js ''{"primary":[{"term":"gold price","rationale":"main topic"}],"secondary":[{"term":"gold market","rationale":"supporting topic"},{"term":"gold market","rationale":"supporting topic"}],"longtail":[{"term":"gold price in bangladesh today","rationale":"user query"},{"term":"gold price in bangladesh today","rationale":"user query"},{"term":"gold price in bangladesh today","rationale":"user query"}],"competitorInsights":"x"}''\<close>

definition sample_response_bad_lsi :: jsstring where
  \<open>sample_response_bad_lsi = js ''{"primary":[{"term":"gold price","rationale":"main topic"}],"secondary":[{"term":"gold market","rationale":"supporting topic"},{"term":"gold market","rationale":"supporting topic"}],"longtail":[{"term":"gold price in bangladesh today","rationale":"user query"},{"term":"gold price in bangladesh today","rationale":"user query"},{"term":"gold price in bangladesh today","rationale":"user query"}],"competitorInsights":"x","lsiKeywords":[{"term":"","rationale":"related term"}]}''\<close>

definition sample_trailing :: jsstring where
  \<open>sample_trailing = js ''{"a":"b"} I hope this helps.''\<close>

text \<open>A response with a conversational prefix and no JSON object.\<close>

definition sample_no_json :: jsstring where
  "sample_no_json = js ''Here is the result: none''"

text \<open>A JSON object with blanks around it and a closing brace inside a string.\<close>

definition sample_padded :: jsstring where
  \<open>sample_padded = js ''  {"a": [1, {"b": "}"}], "c": null}  ''\<close>

text \<open>A JSON object after a byte order mark (U+FEFF).\<close>

definition sample_bom :: jsstring where
  \<open>sample_bom = 0xFEFF # js ''{"a":"b"}''\<close>

text \<open>JSON objects to put in a fence; the second has three backticks in a string.\<close>

definition sample_object :: jsstring where
  \<open>sample_object = js ''{"primary": [], "note": "x"}''\<close>

definition sample_backticks :: jsstring where
  \<open>sample_backticks = js ''{"a":"```"}''\<close>

section \<open>Sample documents\<close>

definition sample_blocks :: node where
  "sample_blocks =
     Element (js ''div'') []
       [Element (js ''p'') [] [TextNode [0x61, NL, NL, 0x20, NL, NL, 0x62]],
        Element (js ''span'') [] [TextNode (js ''skipped'')],
        Element (js ''li'') [] [TextNode [0x20, 0x63, NL]]]"


definition sample_article :: node where
  "sample_article =
     Element (js ''article'') []
       [Element (js ''p'') []
          [TextNode (js ''Gold prices in Bangladesh rose 15% this year, according to analysts.'')],
        Element (js ''p'') [] [TextNode [0x61, NL, NL, 0x20, NL, NL, 0x62]]]"

definition sample_related :: node where
  "sample_related =
     Element (js ''div'') [(js ''id'', js ''content''), (js ''class'', js ''Related-posts'')]
       [Element (js ''p'') []
          [TextNode (js ''Gold prices in Bangladesh rose 15% this year, analysts said. Read more, and more, and more.'')]]"

definition sample_doc :: document where
  "sample_doc =
     [Element (js ''html'') []
        [Element (js ''head'') [] [Element (js ''title'') [] [TextNode (js ''  Gold   news '')]],
         Element (js ''body'') [(js ''class'', js ''has-sidebar'')]
           [Element (js ''nav'') [(js ''class'', js ''nav'')] [TextNode (js ''Menu'')],
            sample_related,
            sample_article]]]"

definition sample_long_doc :: document where
  "sample_long_doc =
     [Element (js ''html'') []
        [Element (js ''head'') [] [Element (js ''title'') [] [TextNode (js ''Gold news'')]],
         Element (js ''body'') []
           [Element (js ''article'') []
              [Element (js ''p'') [] [TextNode (replicate 600 0x61)]]]]]"


definition sample_short_text :: jsstring where
  "sample_short_text =
     js ''Gold news'' @ [NL, NL]
     @ js ''Gold prices in Bangladesh rose 15% this year, according to analysts.''
     @ [0x61, NL, NL, 0x20, NL, NL, 0x62]"

definition sample_long_text :: jsstring where
  "sample_long_text = js ''Gold news'' @ [NL, NL] @ replicate 600 0x61"

text \<open>An article whose only text stands in two anchors, one inside the other.\<close>

definition sample_nested_links :: node where
  "sample_nested_links =
     Element (js ''article'') []
       [Element (js ''p'') []
          [Element (js ''a'') []
             [Element (js ''a'') [] [TextNode (js ''Gold prices in Bangladesh rose 15% this year'')]]]]"

definition sample_nested_body :: node where
  "sample_nested_body = Element (js ''body'') [(js ''class'', js ''has-sidebar'')] [sample_nested_links]"

definition sample_nested_doc :: document where
  "sample_nested_doc = [Element (js ''html'') [] [Element (js ''head'') [] [], sample_nested_body]]"

section \<open>Properties of the validator\<close>

lemmas js_eval = js_def trim_def is_ws_def

lemma validateKeywordArray_JArr:
  "validateKeywordArray (JArr items) lo hi req \<longleftrightarrow>
     lo \<le> length items \<and> length items \<le> hi \<and> list_all validItem items"
  by (auto simp: validateKeywordArray_def)

lemma validateKeywordArray_required:
  "validateKeywordArray arr lo hi True \<longleftrightarrow>
     (\<exists>items. arr = JArr items \<and> lo \<le> length items \<and> length items \<le> hi \<and> list_all validItem items)"
  by (cases arr) (auto simp: validateKeywordArray_def)

lemma validateKeywordResult_iff:
  "validateKeywordResult data \<longleftrightarrow> truthy data \<and> typeof data = TObject \<and> coreValid data"
  by (auto simp: validateKeywordResult_def validateKeywordResult_log_def)

lemma validItem_kw: "trim (js t) \<noteq> [] \<Longrightarrow> trim (js r) \<noteq> [] \<Longrightarrow> validItem (kw t r)"
  by (simp add: validItem_def kw_def js_def)

lemma kw_samples:
  "validItem (kw ''gold price'' ''main topic'')"
  "validItem (kw ''gold market'' ''supporting topic'')"
  "validItem (kw ''gold price in bangladesh today'' ''user query'')"
  by (simp_all add: validItem_def kw_def js_eval)

lemma get_sample:
  "get_prop (JObj (sample_result p s l)) (js ''primary'') = JArr (replicate p (kw ''gold price'' ''main topic''))"
  "get_prop (JObj (sample_result p s l)) (js ''secondary'') = JArr (replicate s (kw ''gold market'' ''supporting topic''))"
  "get_prop (JObj (sample_result p s l)) (js ''longtail'') = JArr (replicate l (kw ''gold price in bangladesh today'' ''user query''))"
  "get_prop (JObj (sample_result p s l)) (js ''competitorInsights'') = JStr (js ''x'')"
  by (simp_all add: sample_result_def js_def)

text \<open>
  C6.  An object whose \<open>primary\<close> array is empty is rejected, and so is an empty array by
  the array check under any minimum of at least 1.  The range of the array check is
  inclusive at both ends: an array of valid items with exactly the minimum or exactly
  the maximum number of items passes.  An object is accepted when one required category
  has exactly its minimum or its maximum number of items (1 or 10, 2 or 20, 3 or 30),
  the two other required categories are arrays of valid items with a length in their
  range, every item has a valid term and rationale, and \<open>competitorInsights\<close> is a
  non-blank string.
\<close>

theorem validate_count_bounds:
  "(get_prop data (js ''primary'') = JArr [] \<longrightarrow> \<not> validateKeywordResult data)
   \<and> (1 \<le> lo \<longrightarrow> \<not> validateKeywordArray (JArr []) lo hi req)
   \<and> (lo \<le> hi \<and> list_all validItem items \<and> (length items = lo \<or> length items = hi)
        \<longrightarrow> validateKeywordArray (JArr items) lo hi req)
   \<and> (truthy data \<and> typeof data = TObject
        \<and> get_prop data (js ''primary'') = JArr ps \<and> list_all validItem ps
        \<and> get_prop data (js ''secondary'') = JArr ss \<and> list_all validItem ss
        \<and> get_prop data (js ''longtail'') = JArr ls \<and> list_all validItem ls
        \<and> nonblank_string (get_prop data (js ''competitorInsights''))
        \<and> ((length ps = 1 \<or> length ps = 10)
              \<and> 2 \<le> length ss \<and> length ss \<le> 20 \<and> 3 \<le> length ls \<and> length ls \<le> 30
            \<or> 1 \<le> length ps \<and> length ps \<le> 10
              \<and> (length ss = 2 \<or> length ss = 20) \<and> 3 \<le> length ls \<and> length ls \<le> 30
            \<or> 1 \<le> length ps \<and> length ps \<le> 10 \<and> 2 \<le> length ss \<and> length ss \<le> 20
              \<and> (length ls = 3 \<or> length ls = 30))
      \<longrightarrow> validateKeywordResult data)"
  by (auto simp: validateKeywordResult_iff coreValid_def validateKeywordArray_JArr)

lemma list_all_replicate: "P x \<Longrightarrow> list_all P (replicate n x)"
  by (simp add: list_all_iff)

theorem validate_count_bounds_witness:
  "\<not> validateKeywordResult (JObj (sample_result 0 7 12))
   \<and> \<not> validateKeywordArray (JArr []) 1 10 True
   \<and> validateKeywordArray (JArr (replicate 5 (kw ''gold price'' ''main topic''))) 5 8 False
   \<and> validateKeywordArray (JArr (replicate 8 (kw ''gold price'' ''main topic''))) 5 8 False
   \<and> validateKeywordResult (JObj (sample_result 1 7 12))
   \<and> validateKeywordResult (JObj (sample_result 10 7 12))
   \<and> validateKeywordResult (JObj (sample_result 5 2 12))
   \<and> validateKeywordResult (JObj (sample_result 5 20 12))
   \<and> validateKeywordResult (JObj (sample_result 5 7 3))
   \<and> validateKeywordResult (JObj (sample_result 5 7 30))"
proof -
  note t = validate_count_bounds
  have nb: "trim (js ''x'') \<noteq> []"
    by (simp add: js_eval)
  have "\<not> validateKeywordResult (JObj (sample_result 0 7 12))"
    using t [of "JObj (sample_result 0 7 12)"]
    by (simp add: get_sample del: get_prop.simps)
  moreover have "\<not> validateKeywordArray (JArr []) 1 10 True"
    using t [of _ 1 10 True] by simp
  moreover have "validateKeywordArray (JArr (replicate 5 (kw ''gold price'' ''main topic''))) 5 8 False"
    using t [of _ 5 8 False "replicate 5 (kw ''gold price'' ''main topic'')"]
    by (simp add: kw_samples list_all_replicate del: replicate.simps)
  moreover have "validateKeywordArray (JArr (replicate 8 (kw ''gold price'' ''main topic''))) 5 8 False"
    using t [of _ 5 8 False "replicate 8 (kw ''gold price'' ''main topic'')"]
    by (simp add: kw_samples list_all_replicate del: replicate.simps)
  moreover have "validateKeywordResult (JObj (sample_result 1 7 12))"
    using t [where data = "JObj (sample_result 1 7 12)"
        and ps = "replicate 1 (kw ''gold price'' ''main topic'')"
        and ss = "replicate 7 (kw ''gold market'' ''supporting topic'')"
        and ls = "replicate 12 (kw ''gold price in bangladesh today'' ''user query'')"]
    by (simp add: get_sample kw_samples list_all_replicate nb del: get_prop.simps replicate.simps)
  moreover have "validateKeywordResult (JObj (sample_result 10 7 12))"
    using t [where data = "JObj (sample_result 10 7 12)"
        and ps = "replicate 10 (kw ''gold price'' ''main topic'')"
        and ss = "replicate 7 (kw ''gold market'' ''supporting topic'')"
        and ls = "replicate 12 (kw ''gold price in bangladesh today'' ''user query'')"]
    by (simp add: get_sample kw_samples list_all_replicate nb del: get_prop.simps replicate.simps)
  moreover have "validateKeywordResult (JObj (sample_result 5 2 12))"
    using t [where data = "JObj (sample_result 5 2 12)"
        and ps = "replicate 5 (kw ''gold price'' ''main topic'')"
        and ss = "replicate 2 (kw ''gold market'' ''supporting topic'')"
        and ls = "replicate 12 (kw ''gold price in bangladesh today'' ''user query'')"]
    by (simp add: get_sample kw_samples list_all_replicate nb del: get_prop.simps replicate.simps)
  moreover have "validateKeywordResult (JObj (sample_result 5 20 12))"
    using t [where data = "JObj (sample_result 5 20 12)"
        and ps = "replicate 5 (kw ''gold price'' ''main topic'')"
        and ss = "replicate 20 (kw ''gold market'' ''supporting topic'')"
        and ls = "replicate 12 (kw ''gold price in bangladesh today'' ''user query'')"]
    by (simp add: get_sample kw_samples list_all_replicate nb del: get_prop.simps replicate.simps)
  moreover have "validateKeywordResult (JObj (sample_result 5 7 3))"
    using t [where data = "JObj (sample_result 5 7 3)"
        and ps = "replicate 5 (kw ''gold price'' ''main topic'')"
        and ss = "replicate 7 (kw ''gold market'' ''supporting topic'')"
        and ls = "replicate 3 (kw ''gold price in bangladesh today'' ''user query'')"]
    by (simp add: get_sample kw_samples list_all_replicate nb del: get_prop.simps replicate.simps)
  moreover have "validateKeywordResult (JObj (sample_result 5 7 30))"
    using t [where data = "JObj (sample_result 5 7 30)"
        and ps = "replicate 5 (kw ''gold price'' ''main topic'')"
        and ss = "replicate 7 (kw ''gold market'' ''supporting topic'')"
        and ls = "replicate 30 (kw ''gold price in bangladesh today'' ''user query'')"]
    by (simp add: get_sample kw_samples list_all_replicate nb del: get_prop.simps replicate.simps)
  ultimately show ?thesis by blast
qed

lemma validateKeywordResult_JObj:
  assumes "validateKeywordResult data"
  obtains kvs where "data = JObj kvs"
  using assms
  by (cases data) (auto simp: validateKeywordResult_iff coreValid_def validateKeywordArray_def)

lemma validItem_fields:
  assumes "validItem item"
  shows "\<exists>t r. get_prop item (js ''term'') = JStr t \<and> trim t \<noteq> []
           \<and> get_prop item (js ''rationale'') = JStr r \<and> trim r \<noteq> []"
proof -
  from assms have t: "nonblank_string (get_prop item (js ''term''))"
    and r: "nonblank_string (get_prop item (js ''rationale''))"
    by (simp_all add: validItem_def)
  from t obtain tv where "get_prop item (js ''term'') = JStr tv" "trim tv \<noteq> []"
    by (cases "get_prop item (js ''term'')") auto
  moreover from r obtain rv where "get_prop item (js ''rationale'') = JStr rv" "trim rv \<noteq> []"
    by (cases "get_prop item (js ''rationale'')") auto
  ultimately show ?thesis by blast
qed

text \<open>
  C3, as amended.  In an accepted object every item of every required category
  (\<open>primary\<close>, \<open>secondary\<close>, \<open>longtail\<close>) has a term and a rationale that are strings
  and non-empty after trimming; so an object with a blank term in a required category is
  rejected.  The optional categories do not decide acceptance.
\<close>

theorem accepted_required_items_nonblank:
  assumes "validateKeywordResult data"
    and "cat = js ''primary'' \<or> cat = js ''secondary'' \<or> cat = js ''longtail''"
  shows "\<exists>items. get_prop data cat = JArr items \<and>
           (\<forall>item\<in>set items. \<exists>t r.
              get_prop item (js ''term'') = JStr t \<and> trim t \<noteq> [] \<and>
              get_prop item (js ''rationale'') = JStr r \<and> trim r \<noteq> [])"
proof -
  from assms(1) have "coreValid data"
    by (simp add: validateKeywordResult_iff)
  with assms(2) obtain lo hi where "validateKeywordArray (get_prop data cat) lo hi True"
    unfolding coreValid_def by blast
  then obtain items where "get_prop data cat = JArr items" "list_all validItem items"
    unfolding validateKeywordArray_required by blast
  then show ?thesis
    using validItem_fields by (auto simp: list_all_iff)
qed

lemma sample_1_2_3_valid: "validateKeywordResult (JObj (sample_result 1 2 3))"
proof -
  have "coreValid (JObj (sample_result 1 2 3))"
    unfolding coreValid_def get_sample validateKeywordArray_JArr
    by (simp add: kw_samples list_all_replicate js_eval del: replicate.simps)
  then show ?thesis by (simp add: validateKeywordResult_iff)
qed

theorem accepted_required_items_nonblank_witness:
  "\<exists>items. get_prop (JObj (sample_result 1 2 3)) (js ''primary'') = JArr items \<and>
           (\<forall>item\<in>set items. \<exists>t r.
              get_prop item (js ''term'') = JStr t \<and> trim t \<noteq> [] \<and>
              get_prop item (js ''rationale'') = JStr r \<and> trim r \<noteq> [])"
  using accepted_required_items_nonblank [OF sample_1_2_3_valid, of "js ''primary''"]
  by simp

lemma get_prop_append_other:
  "k \<notin> fst ` set extra \<Longrightarrow> get_prop (JObj (kvs @ extra)) k = get_prop (JObj kvs) k"
  by (simp add: map_add_def[symmetric] map_add_dom_app_simps dom_map_of_conv_image_fst)

lemma coreValid_append_other:
  assumes "\<forall>k\<in>{js ''primary'', js ''secondary'', js ''longtail'', js ''competitorInsights''}.
             k \<notin> fst ` set extra"
  shows "coreValid (JObj (kvs @ extra)) = coreValid (JObj kvs)"
  unfolding coreValid_def using assms by (simp add: get_prop_append_other del: get_prop.simps)

text \<open>
  C3 as stated fails: an object with valid required categories is accepted although an
  item of the optional category \<open>entities\<close> has an all-whitespace term.
\<close>

theorem optional_blank_term_accepted:
  "validateKeywordResult sample_blank_entity
   \<and> get_prop sample_blank_entity (js ''entities'') = JArr [kw ''  '' ''named entity'']
   \<and> get_prop (kw ''  '' ''named entity'') (js ''term'') = JStr (js ''  '')
   \<and> trim (js ''  '') = []"
proof -
  have "coreValid sample_blank_entity"
    unfolding sample_blank_entity_def
    using sample_1_2_3_valid
    by (subst coreValid_append_other) (simp_all add: js_def validateKeywordResult_iff)
  then have "validateKeywordResult sample_blank_entity"
    by (simp add: validateKeywordResult_iff sample_blank_entity_def)
  moreover have "get_prop sample_blank_entity (js ''entities'') = JArr [kw ''  '' ''named entity'']"
    by (simp add: sample_blank_entity_def sample_result_def js_def)
  moreover have "get_prop (kw ''  '' ''named entity'') (js ''term'') = JStr (js ''  '')"
    by (simp add: kw_def js_def)
  moreover have "trim (js ''  '') = []"
    by (simp add: js_eval)
  ultimately show ?thesis by blast
qed

lemma sample_response_parses:
  "gemini_parse sample_response = Inr (JObj (sample_result 1 2 3))"
  by code_simp

lemma sample_response_bad_lsi_parses:
  "gemini_parse sample_response_bad_lsi = Inr sample_bad_lsi"
  by code_simp

text \<open>
  C2.  The specification has an invalid optional category dropped from what
  generateKeywords returns, and the warning of the validator says it "will be ignored".
  The code returns the spread of the parsed object: every optional category of an
  accepted object comes back as it was parsed, valid or not.
\<close>

theorem optional_categories_carried_through:
  assumes "gemini_parse response_text = Inr data"
    and "validateKeywordResult data"
    and "field = js ''lsiKeywords'' \<or> field = js ''questionKeywords'' \<or> field = js ''entities''"
  shows "\<exists>r. generateKeywords prov response_text = Inr r \<and> get_prop r field = get_prop data field"
proof -
  from assms(2) obtain kvs where kvs: "data = JObj kvs"
    by (rule validateKeywordResult_JObj)
  let ?extra = "[(js ''searchReferences'', searchReferences prov),
                 (js ''contentType'', JStr (contentType prov)),
                 (js ''detectedLanguage'', JStr (detectedLanguage prov))]"
  have "generateKeywords prov response_text = Inr (JObj (kvs @ ?extra))"
    using assms(1,2) by (simp add: generateKeywords_def gemini_finish_def kvs)
  moreover have "field \<notin> fst ` set ?extra"
    using assms(3) by (auto simp: js_def)
  then have "get_prop (JObj (kvs @ ?extra)) field = get_prop data field"
    unfolding kvs by (rule get_prop_append_other)
  ultimately show ?thesis by blast
qed

lemma sample_bad_lsi_valid: "validateKeywordResult sample_bad_lsi"
proof -
  have "coreValid sample_bad_lsi"
    unfolding sample_bad_lsi_def
    using sample_1_2_3_valid
    by (subst coreValid_append_other) (simp_all add: js_def validateKeywordResult_iff)
  then show ?thesis
    by (simp add: validateKeywordResult_iff sample_bad_lsi_def)
qed

lemma sample_bad_lsi_warning:
  "validateKeywordResult_log sample_bad_lsi =
     (True, [''LSI keywords present but invalid - will be ignored''])"
proof -
  have l: "get_prop sample_bad_lsi (js ''lsiKeywords'') = JArr [kw [] ''related term'']"
    and q: "get_prop sample_bad_lsi (js ''questionKeywords'') = JUndefined"
    and e: "get_prop sample_bad_lsi (js ''entities'') = JUndefined"
    by (simp_all add: sample_bad_lsi_def sample_result_def js_def)
  have "optional_warnings sample_bad_lsi = [''LSI keywords present but invalid - will be ignored'']"
    unfolding optional_warnings_def optional_warning_def l q e
    by (simp add: validateKeywordArray_def)
  then show ?thesis
    using sample_bad_lsi_valid
    by (simp add: validateKeywordResult_log_def validateKeywordResult_iff)
qed

theorem optional_categories_carried_through_witness:
  "validateKeywordResult_log sample_bad_lsi =
     (True, [''LSI keywords present but invalid - will be ignored''])
   \<and> \<not> validItem (kw [] ''related term'')
   \<and> (\<exists>r. generateKeywords sample_provenance sample_response_bad_lsi = Inr r
          \<and> get_prop r (js ''lsiKeywords'') = JArr [kw [] ''related term''])"
proof -
  have "get_prop sample_bad_lsi (js ''lsiKeywords'') = JArr [kw [] ''related term'']"
    by (simp add: sample_bad_lsi_def sample_result_def js_def)
  moreover have "\<not> validItem (kw [] ''related term'')"
    by (simp add: validItem_def kw_def js_eval)
  ultimately show ?thesis
    using optional_categories_carried_through [OF sample_response_bad_lsi_parses
        sample_bad_lsi_valid, of "js ''lsiKeywords''" sample_provenance]
      sample_bad_lsi_warning
    by simp
qed

section \<open>The two providers\<close>

text \<open>None of the five names that openaiService.ts imports is exported.\<close>

lemma unresolved_imports_all: "unresolved_imports = openaiService_imports"
  by (simp add: unresolved_imports_def geminiService_exports_def openaiService_imports_def)

text \<open>
  The statements of the two extractions differ as well: on a JSON object followed by a
  remark the statements of geminiService.ts parse the object, and those of
  openaiService.ts 77-127, were they evaluated, end in the parse error.
\<close>

lemma trailing_text_parse_differs:
  "gemini_parse sample_trailing = Inr (JObj [(js ''a'', JStr (js ''b''))])
   \<and> openai_parse sample_trailing = Inl JsonParseError"
  by code_simp

text \<open>
  C1.  The two paths do not behave alike.  generateKeywordsWithOpenAI never reaches its
  extraction or its validation step: the names it imports from geminiService.ts,
  validateKeywordResult among them, are not exported there, so for every response text,
  and whatever the two unresolved names are taken to stand for, it ends in the import
  error.  generateKeywords parses the sample response, its validator accepts the parsed
  object, and the result is returned.
\<close>

theorem providers_disagree:
  "generateKeywordsWithOpenAI validate language response_text =
     Inl (UnresolvedImport ''detectLanguage'')
   \<and> gemini_parse sample_response = Inr (JObj (sample_result 1 2 3))
   \<and> validateKeywordResult (JObj (sample_result 1 2 3))
   \<and> (\<exists>r. generateKeywords sample_provenance sample_response = Inr r)"
proof -
  have "generateKeywordsWithOpenAI validate language response_text =
      Inl (UnresolvedImport ''detectLanguage'')"
    by (simp add: generateKeywordsWithOpenAI_def unresolved_imports_all openaiService_imports_def)
  moreover have "\<exists>r. generateKeywords sample_provenance sample_response = Inr r"
    using sample_response_parses sample_1_2_3_valid
    by (simp add: generateKeywords_def gemini_finish_def)
  ultimately show ?thesis
    using sample_response_parses sample_1_2_3_valid by simp
qed

section \<open>Properties of the regular expressions\<close>

declare star_m.simps [simp del] lazy_m.simps [simp del] regex_match.simps [simp del]

lemma suffix_closedD: "suffix_closed m \<Longrightarrow> r \<in> set (m s) \<Longrightarrow> suffix r s"
  by (simp add: suffix_closed_def)

lemma suffix_closed_chr: "suffix_closed (chr_m P)"
  by (auto simp: suffix_closed_def chr_m_def suffix_def split: list.splits if_splits)

lemma suffix_closed_eps: "suffix_closed eps_m"
  by (simp add: suffix_closed_def eps_m_def)

lemma suffix_closed_seq:
  "suffix_closed m1 \<Longrightarrow> suffix_closed m2 \<Longrightarrow> suffix_closed (seq_m m1 m2)"
  unfolding suffix_closed_def seq_m_def by auto (meson suffix_order.trans)

lemma suffix_closed_alt:
  "suffix_closed m1 \<Longrightarrow> suffix_closed m2 \<Longrightarrow> suffix_closed (alt_m m1 m2)"
  by (auto simp: suffix_closed_def alt_m_def)

lemma suffix_closed_opt: "suffix_closed m \<Longrightarrow> suffix_closed (opt_m m)"
  by (simp add: opt_m_def suffix_closed_alt suffix_closed_eps)

lemma star_m_suffix:
  "suffix_closed m \<Longrightarrow> r \<in> set (star_m m s) \<Longrightarrow> suffix r s"
proof (induction m s arbitrary: r rule: star_m.induct)
  case (1 m s)
  from "1.prems"(2) consider "r = s"
    | x where "x \<in> set (m s)" "length x < length s" "r \<in> set (star_m m x)"
    by (subst (asm) star_m.simps) auto
  then show ?case
  proof cases
    case 1
    then show ?thesis by simp
  next
    case 2
    then have "suffix r x" using "1.IH" "1.prems"(1) by simp
    moreover have "suffix x s" by (rule suffix_closedD[OF "1.prems"(1) 2(1)])
    ultimately show ?thesis by (rule suffix_order.trans)
  qed
qed

lemma suffix_closed_star: "suffix_closed m \<Longrightarrow> suffix_closed (star_m m)"
  using star_m_suffix by (simp add: suffix_closed_def)

lemma suffix_closed_lit: "suffix_closed (lit_m p)"
  by (induction p) (simp_all add: suffix_closed_eps suffix_closed_seq suffix_closed_chr)

lemma suffix_closed_lit_ci: "suffix_closed (lit_ci_m p)"
  by (induction p) (simp_all add: suffix_closed_eps suffix_closed_seq suffix_closed_chr)

lemmas suffix_closed_intros =
  suffix_closed_chr suffix_closed_eps suffix_closed_seq suffix_closed_alt suffix_closed_opt
  suffix_closed_star suffix_closed_lit suffix_closed_lit_ci

lemma match_at_None_iff:
  "match_at pre grp post t = None \<longleftrightarrow> (\<forall>a\<in>set (pre t). \<forall>b\<in>set (grp a). post b = [])"
proof -
  have "match_at pre grp post t = None \<longleftrightarrow>
          [(a, b, c). a \<leftarrow> pre t, b \<leftarrow> grp a, c \<leftarrow> post b] = []"
  proof (cases "[(a, b, c). a \<leftarrow> pre t, b \<leftarrow> grp a, c \<leftarrow> post b]")
    case Nil
    show ?thesis unfolding match_at_def Nil by simp
  next
    case (Cons x xs)
    show ?thesis unfolding match_at_def Cons by (simp split: prod.splits)
  qed
  then show ?thesis by (auto simp: concat_eq_Nil_conv)
qed

lemma regex_match_None_iff:
  "regex_match pre grp post s = None \<longleftrightarrow> (\<forall>u. suffix u s \<longrightarrow> match_at pre grp post u = None)"
proof (induction s)
  case Nil
  then show ?case by (subst regex_match.simps) (simp split: option.splits)
next
  case (Cons c cs)
  have "regex_match pre grp post (c # cs) = None \<longleftrightarrow>
          match_at pre grp post (c # cs) = None \<and> regex_match pre grp post cs = None"
    by (subst regex_match.simps) (simp split: option.splits)
  then show ?case
    using Cons.IH by (auto simp: suffix_Cons)
qed

lemma re_object_None_iff: "re_object s = None \<longleftrightarrow> (\<forall>u. suffix u s \<longrightarrow> braces_m u = [])"
  by (simp add: re_object_def regex_match_None_iff match_at_None_iff eps_m_def)

lemma re_prefix_pre_suffix_closed:
  "suffix_closed (seq_m (opt_m (alt_m (lit_ci_m (js ''Here's'')) (alt_m (lit_ci_m (js ''Here is''))
         (alt_m (lit_ci_m (js ''Output:'')) (lit_ci_m (js ''Result:'')))))) (star_m ws_m))"
  unfolding ws_m_def by (intro suffix_closed_intros)

lemma strategy4_unreachable: "re_object s = None \<Longrightarrow> re_prefix s = None"
proof (rule ccontr)
  assume none: "re_object s = None" and "re_prefix s \<noteq> None"
  then obtain u a b where u: "suffix u s"
    and a: "a \<in> set ((seq_m (opt_m (alt_m (lit_ci_m (js ''Here's'')) (alt_m (lit_ci_m (js ''Here is''))
         (alt_m (lit_ci_m (js ''Output:'')) (lit_ci_m (js ''Result:'')))))) (star_m ws_m)) u)"
    and b: "b \<in> set (braces_m a)"
    unfolding re_prefix_def regex_match_None_iff match_at_None_iff
    by (metis empty_iff empty_set)
  from a have "suffix a u"
    using re_prefix_pre_suffix_closed by (rule suffix_closedD[rotated])
  with u have "suffix a s" by (rule suffix_order.trans[rotated])
  with none have "braces_m a = []" by (simp add: re_object_None_iff)
  with b show False by simp
qed

lemma strategy34_eq:
  "strategy34 s = (case re_object s of Some (m0, g1) \<Rightarrow> Inr m0 | None \<Rightarrow> Inl NoJsonFound)"
  by (auto simp: strategy34_def strategy4_unreachable split: option.splits)

text \<open>
  C10.  Strategy 4 never decides.  Where the object pattern of strategy 3 finds nothing,
  the pattern of strategy 4 finds nothing either: its prefix is optional and its group
  is the same object pattern.  So the extractor equals the extractor with strategies 1 to
  3 only, and the no-JSON error is raised exactly when the text does not start with a
  brace, strategy 2 gives no non-empty group and strategy 3 finds nothing.  Both
  generateKeywords and generateKeywordsWithOpenAI extract with \<open>extract_json\<close>.
\<close>

theorem strategy4_never_decides:
  "(re_object s = None \<longrightarrow> re_prefix s = None)
   \<and> extract_json s = extract_json3 s
   \<and> (extract_json s = Inl NoJsonFound \<longleftrightarrow>
        \<not> startsWith s LBRACE \<and> (\<forall>m g. re_codeblock s = Some (m, g) \<longrightarrow> g = [])
        \<and> re_object s = None)"
proof (intro conjI)
  show "re_object s = None \<longrightarrow> re_prefix s = None"
    by (simp add: strategy4_unreachable)
  show "extract_json s = extract_json3 s"
    by (auto simp: extract_json_def extract_json3_def strategy34_eq split: option.splits)
  show "extract_json s = Inl NoJsonFound \<longleftrightarrow>
        \<not> startsWith s LBRACE \<and> (\<forall>m g. re_codeblock s = Some (m, g) \<longrightarrow> g = [])
        \<and> re_object s = None"
    by (auto simp: extract_json_def strategy34_eq split: option.splits)
qed

theorem strategy4_never_decides_witness:
  "re_object sample_no_json = None \<and> re_prefix sample_no_json = None
   \<and> extract_json sample_no_json = Inl NoJsonFound
   \<and> extract_json3 sample_no_json = Inl NoJsonFound"
proof -
  have o: "re_object sample_no_json = None"
    by code_simp
  have s: "\<not> startsWith sample_no_json LBRACE"
    by code_simp
  have c: "re_codeblock sample_no_json = None"
    by code_simp
  note t = strategy4_never_decides [of sample_no_json]
  from t o have p: "re_prefix sample_no_json = None" by blast
  from t have "extract_json sample_no_json = Inl NoJsonFound \<longleftrightarrow>
      \<not> startsWith sample_no_json LBRACE
      \<and> (\<forall>m g. re_codeblock sample_no_json = Some (m, g) \<longrightarrow> g = [])
      \<and> re_object sample_no_json = None"
    by blast
  with o s c have e: "extract_json sample_no_json = Inl NoJsonFound" by simp
  from t have "extract_json sample_no_json = extract_json3 sample_no_json" by blast
  with e have "extract_json3 sample_no_json = Inl NoJsonFound" by simp
  with o p e show ?thesis by blast
qed

section \<open>Properties of the string functions\<close>


lemma dropWhile_idem: "dropWhile P (dropWhile P xs) = dropWhile P xs"
  by (induction xs) auto

lemma trim_cases:
  obtains "trim s = []" | "trim s \<noteq> []" "\<not> is_ws (hd (trim s))" "\<not> is_ws (last (trim s))"
proof (cases "trim s = []")
  case True
  then show ?thesis by (rule that(1))
next
  case False
  let ?a = "dropWhile is_ws s"
  let ?b = "dropWhile is_ws (rev ?a)"
  have b: "?b \<noteq> []" using False by (simp add: trim_def)
  then have hb: "\<not> is_ws (hd ?b)" by (rule hd_dropWhile)
  have l: "\<not> is_ws (last (trim s))"
    using b hb by (simp add: trim_def last_rev)
  have a: "?a \<noteq> []" using b by (metis dropWhile.simps(1) rev.simps(1))
  then have ha: "\<not> is_ws (hd ?a)" by (rule hd_dropWhile)
  obtain ys where ys: "rev ?a = ys @ ?b"
    by (metis takeWhile_dropWhile_id)
  then have "?a = rev ?b @ rev ys" by (metis rev_append rev_rev_ident)
  then have "hd ?a = hd (rev ?b)" using b by (metis hd_append2 rev_is_Nil_conv)
  then have h: "\<not> is_ws (hd (trim s))" using ha by (simp add: trim_def)
  show ?thesis by (rule that(2)[OF False h l])
qed

lemma dropWhile_hd_id: "xs = [] \<or> \<not> P (hd xs) \<Longrightarrow> dropWhile P xs = xs"
  by (cases xs) auto

lemma trim_idem: "trim (trim s) = trim s"
proof (cases s rule: trim_cases)
  case 1
  show ?thesis unfolding 1 by (simp add: trim_def)
next
  case 2
  have "dropWhile is_ws (trim s) = trim s"
    using 2 by (simp add: dropWhile_hd_id)
  moreover have "dropWhile is_ws (rev (trim s)) = rev (trim s)"
    using 2 by (intro dropWhile_hd_id) (simp add: hd_rev)
  ultimately show ?thesis
    by (simp add: trim_def[of "trim s"])
qed

lemma lastIndexOf_range: "- 1 \<le> lastIndexOf s c \<and> lastIndexOf s c < int (length s)"
  by (induction s) (auto simp: Let_def)

lemma lastIndexOf_last:
  "s \<noteq> [] \<Longrightarrow> last s = c \<Longrightarrow> lastIndexOf s c = int (length s) - 1"
proof (induction s)
  case Nil
  then show ?case by simp
next
  case (Cons x xs)
  show ?case
  proof (cases "xs = []")
    case True
    with Cons.prems show ?thesis by simp
  next
    case False
    with Cons have "lastIndexOf xs c = int (length xs) - 1" by simp
    moreover have "0 < length xs" using False by simp
    ultimately show ?thesis by (simp add: Let_def)
  qed
qed

lemma cleanup_trailing_noop:
  "s \<noteq> [] \<Longrightarrow> last s = RBRACE \<Longrightarrow> cleanup_trailing s = s"
  by (simp add: cleanup_trailing_def lastIndexOf_last)

lemma suffix_skip_ws: "suffix (skip_ws s) s"
  by (simp add: skip_ws_def suffix_dropWhile)

lemma suffix_skip_ws_trans: "suffix r (skip_ws s) \<Longrightarrow> suffix r s"
  using suffix_skip_ws by (rule suffix_order.trans[rotated])

lemma skip_ws_Cons_suffix: "skip_ws s = d # ds \<Longrightarrow> suffix (d # ds) s"
  by (metis suffix_skip_ws)

section \<open>Properties of the JSON reader\<close>

lemma suffix_ConsD2: "suffix r xs \<Longrightarrow> suffix r (x # xs)"
  by (simp add: suffix_Cons)

lemma parse_chars_suffix: "parse_chars s = Some (str, r) \<Longrightarrow> suffix r s"
proof (induction s arbitrary: str r rule: length_induct)
  case (1 s)
  note IH = "1.IH"[rule_format]
  from "1.prems" obtain c cs where s: "s = c # cs"
    by (cases s) auto
  show ?case
  proof (cases "c = 0x22")
    case True
    with "1.prems" show ?thesis by (simp add: s suffix_Cons)
  next
    case nq: False
    show ?thesis
    proof (cases "c = 0x5C")
      case False
      with nq "1.prems" obtain str' where "parse_chars cs = Some (str', r)"
        unfolding s by (auto split: if_splits option.splits)
      then have "suffix r cs" by (intro IH) (simp_all add: s)
      then show ?thesis unfolding s by (rule suffix_ConsD2)
    next
      case bs: True
      then obtain e es where cs: "cs = e # es"
        using "1.prems" nq unfolding s by (cases cs) auto
      show ?thesis
      proof (cases "e = 0x75")
        case False
        with nq bs "1.prems" obtain str' where "parse_chars es = Some (str', r)"
          unfolding s cs by (auto split: option.splits)
        then have "suffix r es" by (intro IH) (simp_all add: s cs)
        then show ?thesis unfolding s cs by (intro suffix_ConsD2)
      next
        case True
        with nq bs "1.prems" obtain h1 h2 h3 h4 rest str'
          where es: "es = h1 # h2 # h3 # h4 # rest"
            and pr: "parse_chars rest = Some (str', r)"
          unfolding s cs by (auto split: list.splits option.splits)
        from pr have "suffix r rest" by (intro IH) (simp_all add: s cs es)
        then show ?thesis unfolding s cs es by (intro suffix_ConsD2)
      qed
    qed
  qed
qed

lemma parse_number_suffix: "parse_number s = Some (q, r) \<Longrightarrow> suffix r s"
proof -
  assume a: "parse_number s = Some (q, r)"
  define s1 where "s1 = (if startsWith s 0x2D then tl s else s)"
  define s2 where "s2 = dropWhile is_digit s1"
  define s3 where "s3 = (if startsWith s2 0x2E then dropWhile is_digit (tl s2) else s2)"
  define s4 where "s4 = (if startsWith s3 0x65 \<or> startsWith s3 0x45 then tl s3 else s3)"
  define s5 where "s5 = (if (startsWith s3 0x65 \<or> startsWith s3 0x45)
     \<and> (startsWith s4 0x2D \<or> startsWith s4 0x2B) then tl s4 else s4)"
  define s6 where "s6 = (if startsWith s3 0x65 \<or> startsWith s3 0x45 then dropWhile is_digit s5 else s3)"
  have tl: "\<And>xs::jsstring. suffix (tl xs) xs" by (simp add: suffix_tl)
  have 1: "suffix s1 s" by (simp add: s1_def tl)
  have 2: "suffix s2 s1" by (simp add: s2_def suffix_dropWhile)
  have 3: "suffix s3 s2"
    using suffix_order.trans[OF suffix_dropWhile tl] by (simp add: s3_def)
  have 4: "suffix s4 s3" by (simp add: s4_def tl)
  have 5: "suffix s5 s4" by (simp add: s5_def tl)
  have 6: "suffix s6 s3"
    using suffix_order.trans[OF suffix_dropWhile suffix_order.trans[OF 5 4]]
    by (simp add: s6_def)
  have "\<exists>C V. parse_number s = (if C then None else Some (V, s6))"
    unfolding parse_number_def Let_def s1_def s2_def s3_def s4_def s5_def s6_def
    by (intro exI) (rule refl)
  with a have "r = s6"
    by (auto split: if_splits)
  moreover have "suffix s6 s"
    by (rule suffix_order.trans[OF 6 suffix_order.trans[OF 3 suffix_order.trans[OF 2 1]]])
  ultimately show ?thesis by simp
qed

lemma strip_prefix_suffix: "strip_prefix p s = Some r \<Longrightarrow> suffix r s"
  by (auto simp: strip_prefix_def suffix_drop split: if_splits)

lemma suffix_tlD: "suffix (x # xs) ys \<Longrightarrow> suffix xs ys"
  by (rule suffix_ConsD)

lemma parse_value_step:
  assumes IHm: "\<And>s kvs r. parse_members n s = Some (kvs, r) \<Longrightarrow> suffix (RBRACE # r) s"
    and IHe: "\<And>s vs r. parse_elements n s = Some (vs, r) \<Longrightarrow> suffix r s"
    and pv: "parse_value (Suc n) s = Some (v, r)"
  shows "suffix r s \<and> (startsWith s LBRACE \<longrightarrow> suffix (RBRACE # r) s)"
proof -
  from pv obtain c cs where s: "s = c # cs"
    by (cases s) auto
  show ?thesis
  proof (cases "c = LBRACE")
    case True
    from pv True obtain d ds where sk: "skip_ws cs = d # ds"
      unfolding s by (cases "skip_ws cs") auto
    then have sf: "suffix (d # ds) s"
      unfolding s by (intro suffix_ConsD2 skip_ws_Cons_suffix)
    have "suffix (RBRACE # r) s"
    proof (cases "d = RBRACE")
      case True
      with pv \<open>c = LBRACE\<close> sk have "r = ds" unfolding s by simp
      with sf True show ?thesis by simp
    next
      case False
      with pv \<open>c = LBRACE\<close> sk obtain kvs where "parse_members n (d # ds) = Some (kvs, r)"
        unfolding s by (auto split: option.splits)
      then have "suffix (RBRACE # r) (d # ds)" by (rule IHm)
      then show ?thesis using sf by (rule suffix_order.trans)
    qed
    then show ?thesis by (auto dest: suffix_tlD)
  next
    case nb: False
    then have ns: "\<not> startsWith s LBRACE" by (simp add: s startsWith_def)
    have "suffix r s"
    proof (cases "c = 0x5B")
      case True
      from pv nb True obtain d ds where sk: "skip_ws cs = d # ds"
        unfolding s by (cases "skip_ws cs") auto
      then have sf: "suffix (d # ds) s"
        unfolding s by (intro suffix_ConsD2 skip_ws_Cons_suffix)
      show ?thesis
      proof (cases "d = 0x5D")
        case True
        with pv nb \<open>c = 0x5B\<close> sk have "r = ds" unfolding s by simp
        with sf show ?thesis by (auto dest: suffix_tlD)
      next
        case False
        with pv nb \<open>c = 0x5B\<close> sk obtain vs where "parse_elements n (d # ds) = Some (vs, r)"
          unfolding s by (auto split: option.splits)
        then have "suffix r (d # ds)" by (rule IHe)
        then show ?thesis using sf by (rule suffix_order.trans)
      qed
    next
      case na: False
      show ?thesis
      proof (cases "c = 0x22")
        case True
        with pv nb na obtain str where "parse_chars cs = Some (str, r)"
          unfolding s by (auto split: option.splits)
        then have "suffix r cs" by (rule parse_chars_suffix)
        then show ?thesis unfolding s by (rule suffix_ConsD2)
      next
        case nq: False
        show ?thesis
        proof (cases "c = 0x74")
          case True
          with pv nb na nq have "strip_prefix (js ''true'') s = Some r"
            unfolding s by (simp split: option.splits)
          then show ?thesis by (rule strip_prefix_suffix)
        next
          case nt: False
          show ?thesis
          proof (cases "c = 0x66")
            case True
            with pv nb na nq nt have "strip_prefix (js ''false'') s = Some r"
              unfolding s by (simp split: option.splits)
            then show ?thesis by (rule strip_prefix_suffix)
          next
            case nf: False
            show ?thesis
            proof (cases "c = 0x6E")
              case True
              with pv nb na nq nt nf have "strip_prefix (js ''null'') s = Some r"
                unfolding s by (simp split: option.splits)
              then show ?thesis by (rule strip_prefix_suffix)
            next
              case False
              with pv nb na nq nt nf obtain q where "parse_number s = Some (q, r)"
                unfolding s by (simp split: option.splits prod.splits)
              then show ?thesis by (rule parse_number_suffix)
            qed
          qed
        qed
      qed
    qed
    with ns show ?thesis by simp
  qed
qed

lemma parse_elements_step:
  assumes IHv: "\<And>s v r. parse_value n s = Some (v, r) \<Longrightarrow> suffix r s"
    and IHe: "\<And>s vs r. parse_elements n s = Some (vs, r) \<Longrightarrow> suffix r s"
    and pe: "parse_elements (Suc n) s = Some (vs, r)"
  shows "suffix r s"
proof -
  from pe obtain v r1 where v: "parse_value n s = Some (v, r1)"
    by (auto split: option.splits)
  then have 1: "suffix r1 s" by (rule IHv)
  from pe v obtain d ds where sk: "skip_ws r1 = d # ds"
    by (cases "skip_ws r1") auto
  then have "suffix (d # ds) r1" by (rule skip_ws_Cons_suffix)
  then have 2: "suffix ds s" using 1 by (auto dest: suffix_tlD intro: suffix_order.trans)
  show ?thesis
  proof (cases "d = 0x5D")
    case True
    with pe v sk have "r = ds" by simp
    with 2 show ?thesis by simp
  next
    case False
    with pe v sk obtain vs' where "parse_elements n (skip_ws ds) = Some (vs', r)"
      by (auto split: if_splits option.splits)
    then have "suffix r (skip_ws ds)" by (rule IHe)
    then have "suffix r ds" by (rule suffix_skip_ws_trans)
    then show ?thesis using 2 by (rule suffix_order.trans)
  qed
qed

lemma parse_members_step:
  assumes IHv: "\<And>s v r. parse_value n s = Some (v, r) \<Longrightarrow> suffix r s"
    and IHm: "\<And>s kvs r. parse_members n s = Some (kvs, r) \<Longrightarrow> suffix (RBRACE # r) s"
    and pm: "parse_members (Suc n) s = Some (kvs, r)"
  shows "suffix (RBRACE # r) s"
proof -
  from pm obtain cs where s: "s = 0x22 # cs"
    by (cases s) (auto split: if_splits)
  from pm obtain k r0 where k: "parse_chars cs = Some (k, r0)"
    unfolding s by (auto split: option.splits)
  then have 0: "suffix r0 s" unfolding s by (intro suffix_ConsD2 parse_chars_suffix)
  from pm k obtain r1 where sk0: "skip_ws r0 = 0x3A # r1"
    unfolding s by (cases "skip_ws r0") (auto split: if_splits)
  then have "suffix (0x3A # r1) r0" by (rule skip_ws_Cons_suffix)
  then have 1: "suffix r1 s" using 0 by (auto dest: suffix_tlD intro: suffix_order.trans)
  from pm k sk0 obtain v r2 where v: "parse_value n (skip_ws r1) = Some (v, r2)"
    unfolding s by (auto split: option.splits)
  then have "suffix r2 (skip_ws r1)" by (rule IHv)
  then have "suffix r2 r1" by (rule suffix_skip_ws_trans)
  then have 2: "suffix r2 s" using 1 by (rule suffix_order.trans)
  from pm k sk0 v obtain d ds where sk: "skip_ws r2 = d # ds"
    unfolding s by (cases "skip_ws r2") auto
  then have "suffix (d # ds) r2" by (rule skip_ws_Cons_suffix)
  then have 3: "suffix (d # ds) s" using 2 by (rule suffix_order.trans)
  show ?thesis
  proof (cases "d = RBRACE")
    case True
    with pm k sk0 v sk have "r = ds" unfolding s by simp
    with 3 True show ?thesis by simp
  next
    case False
    with pm k sk0 v sk obtain kvs' where "parse_members n (skip_ws ds) = Some (kvs', r)"
      unfolding s by (auto split: if_splits option.splits)
    then have "suffix (RBRACE # r) (skip_ws ds)" by (rule IHm)
    then have "suffix (RBRACE # r) ds" by (rule suffix_skip_ws_trans)
    then show ?thesis using 3 by (auto dest: suffix_tlD intro: suffix_order.trans)
  qed
qed

lemma parser_suffix:
  "(\<forall>s v r. parse_value n s = Some (v, r) \<longrightarrow>
       suffix r s \<and> (startsWith s LBRACE \<longrightarrow> suffix (RBRACE # r) s))
   \<and> (\<forall>s vs r. parse_elements n s = Some (vs, r) \<longrightarrow> suffix r s)
   \<and> (\<forall>s kvs r. parse_members n s = Some (kvs, r) \<longrightarrow> suffix (RBRACE # r) s)"
proof (induction n)
  case 0
  show ?case by simp
next
  case (Suc n)
  have IHv: "suffix r s" if "parse_value n s = Some (v, r)" for s v r
    using Suc.IH that by blast
  have IHe: "suffix r s" if "parse_elements n s = Some (vs, r)" for s vs r
    using Suc.IH that by blast
  have IHm: "suffix (RBRACE # r) s" if "parse_members n s = Some (kvs, r)" for s kvs r
    using Suc.IH that by blast
  have "suffix r s \<and> (startsWith s LBRACE \<longrightarrow> suffix (RBRACE # r) s)"
    if "parse_value (Suc n) s = Some (v, r)" for s v r
    using IHm IHe that by (rule parse_value_step)
  moreover have "suffix r s" if "parse_elements (Suc n) s = Some (vs, r)" for s vs r
    using IHv IHe that by (rule parse_elements_step)
  moreover have "suffix (RBRACE # r) s" if "parse_members (Suc n) s = Some (kvs, r)" for s kvs r
    using IHv IHm that by (rule parse_members_step)
  ultimately show ?case by blast
qed

lemma parse_value_object_shape:
  "parse_value n s = Some (v, r) \<Longrightarrow> startsWith s LBRACE \<Longrightarrow> suffix (RBRACE # r) s"
  using parser_suffix by blast


text \<open>A larger counter changes nothing.\<close>

lemma suffix_length_lt: "suffix (x # xs) ys \<Longrightarrow> length xs < length ys"
  by (auto simp: suffix_def)

lemma skip_ws_Cons_length: "skip_ws s = d # ds \<Longrightarrow> length ds < length s"
  by (rule suffix_length_lt[OF skip_ws_Cons_suffix])

lemma skip_ws_length: "length (skip_ws s) \<le> length s"
  by (simp add: skip_ws_def length_dropWhile_le)

lemma parse_value_length: "parse_value n s = Some (v, r) \<Longrightarrow> length r \<le> length s"
  using parser_suffix[of n] by (auto dest!: suffix_length_le)

lemma parse_value_fuel_step:
  assumes m: "\<And>t. 2 * length t + 2 \<le> n \<Longrightarrow> parse_members (Suc n) t = parse_members n t"
    and e: "\<And>t. 2 * length t + 2 \<le> n \<Longrightarrow> parse_elements (Suc n) t = parse_elements n t"
    and b: "2 * length s + 1 \<le> Suc n"
  shows "parse_value (Suc (Suc n)) s = parse_value (Suc n) s"
proof (cases s)
  case Nil
  show ?thesis
    apply (subst (2) parse_value.simps(2))
    apply (subst parse_value.simps(2))
    apply (simp only: Nil list.case)
    done
next
  case (Cons c cs)
  show ?thesis
  proof (cases "skip_ws cs")
    case Nil
    show ?thesis
      apply (subst (2) parse_value.simps(2))
      apply (subst parse_value.simps(2))
      apply (simp only: Cons Nil list.case)
      done
  next
    case sk: (Cons d ds)
    then have "length ds < length cs" by (rule skip_ws_Cons_length)
    with b have "2 * length (d # ds) + 2 \<le> n" by (simp add: Cons)
    then have mm: "parse_members (Suc n) (d # ds) = parse_members n (d # ds)"
      and ee: "parse_elements (Suc n) (d # ds) = parse_elements n (d # ds)"
      by (rule m, rule e)
    show ?thesis
      apply (subst (2) parse_value.simps(2))
      apply (subst parse_value.simps(2))
      apply (simp only: Cons sk list.case mm ee)
      done
  qed
qed

lemma parse_elements_fuel_step:
  assumes v: "\<And>t. 2 * length t + 1 \<le> n \<Longrightarrow> parse_value (Suc n) t = parse_value n t"
    and e: "\<And>t. 2 * length t + 2 \<le> n \<Longrightarrow> parse_elements (Suc n) t = parse_elements n t"
    and b: "2 * length s + 2 \<le> Suc n"
  shows "parse_elements (Suc (Suc n)) s = parse_elements (Suc n) s"
proof -
  from b have pv: "parse_value (Suc n) s = parse_value n s"
    by (intro v) simp
  show ?thesis
  proof (cases "parse_value n s")
    case None
    show ?thesis
      apply (subst (2) parse_elements.simps(2))
      apply (subst parse_elements.simps(2))
      apply (simp only: pv None option.case)
      done
  next
    case (Some a)
    obtain val r where a: "a = (val, r)" by (cases a)
    from Some a have lr: "length r \<le> length s" by (simp add: parse_value_length)
    show ?thesis
    proof (cases "skip_ws r")
      case Nil
      show ?thesis
        apply (subst (2) parse_elements.simps(2))
        apply (subst parse_elements.simps(2))
        apply (simp only: pv Some a Nil option.case prod.case list.case)
        done
    next
      case sk: (Cons d ds)
      then have "length ds < length r" by (rule skip_ws_Cons_length)
      with lr skip_ws_length[of ds] b have "2 * length (skip_ws ds) + 2 \<le> n" by simp
      then have ee: "parse_elements (Suc n) (skip_ws ds) = parse_elements n (skip_ws ds)"
        by (rule e)
      show ?thesis
        apply (subst (2) parse_elements.simps(2))
        apply (subst parse_elements.simps(2))
        apply (simp only: pv Some a sk ee option.case prod.case list.case)
        done
    qed
  qed
qed

lemma parse_members_fuel_step:
  assumes v: "\<And>t. 2 * length t + 1 \<le> n \<Longrightarrow> parse_value (Suc n) t = parse_value n t"
    and m: "\<And>t. 2 * length t + 2 \<le> n \<Longrightarrow> parse_members (Suc n) t = parse_members n t"
    and b: "2 * length s + 2 \<le> Suc n"
  shows "parse_members (Suc (Suc n)) s = parse_members (Suc n) s"
proof (cases s)
  case Nil
  show ?thesis
    apply (subst (2) parse_members.simps(2))
    apply (subst parse_members.simps(2))
    apply (simp only: Nil list.case)
    done
next
  case (Cons q cs)
  show ?thesis
  proof (cases "parse_chars cs")
    case None
    show ?thesis
      apply (subst (2) parse_members.simps(2))
      apply (subst parse_members.simps(2))
      apply (simp only: Cons None list.case option.case)
      done
  next
    case (Some a)
    obtain k r where a: "a = (k, r)" by (cases a)
    from Some a have lr: "length r \<le> length cs"
      using parse_chars_suffix suffix_length_le by blast
    show ?thesis
    proof (cases "skip_ws r")
      case Nil
      show ?thesis
        apply (subst (2) parse_members.simps(2))
        apply (subst parse_members.simps(2))
        apply (simp only: Cons Some a Nil list.case option.case prod.case)
        done
    next
      case sk: (Cons colon r1)
      then have l1: "length r1 < length r" by (rule skip_ws_Cons_length)
      with lr skip_ws_length[of r1] b have "2 * length (skip_ws r1) + 1 \<le> n"
        by (simp add: Cons)
      then have pv: "parse_value (Suc n) (skip_ws r1) = parse_value n (skip_ws r1)"
        by (rule v)
      show ?thesis
      proof (cases "parse_value n (skip_ws r1)")
        case None
        show ?thesis
          apply (subst (2) parse_members.simps(2))
          apply (subst parse_members.simps(2))
          apply (simp only: Cons Some a sk pv None list.case option.case prod.case)
          done
      next
        case sv: (Some a2)
        obtain val r2 where a2: "a2 = (val, r2)" by (cases a2)
        from sv a2 have l2: "length r2 \<le> length (skip_ws r1)" by (simp add: parse_value_length)
        show ?thesis
        proof (cases "skip_ws r2")
          case Nil
          show ?thesis
            apply (subst (2) parse_members.simps(2))
            apply (subst parse_members.simps(2))
            apply (simp only: Cons Some a sk pv sv a2 Nil list.case option.case prod.case)
            done
        next
          case sk2: (Cons d ds)
          then have "length ds < length r2" by (rule skip_ws_Cons_length)
          with l2 l1 lr skip_ws_length[of r1] skip_ws_length[of ds] b
          have "2 * length (skip_ws ds) + 2 \<le> n" by (simp add: Cons)
          then have mm: "parse_members (Suc n) (skip_ws ds) = parse_members n (skip_ws ds)"
            by (rule m)
          show ?thesis
            apply (subst (2) parse_members.simps(2))
            apply (subst parse_members.simps(2))
            apply (simp only: Cons Some a sk pv sv a2 sk2 mm list.case option.case prod.case)
            done
        qed
      qed
    qed
  qed
qed

lemma parser_fuel_Suc:
  "(\<forall>s. 2 * length s + 1 \<le> n \<longrightarrow> parse_value (Suc n) s = parse_value n s)
   \<and> (\<forall>s. 2 * length s + 2 \<le> n \<longrightarrow> parse_elements (Suc n) s = parse_elements n s)
   \<and> (\<forall>s. 2 * length s + 2 \<le> n \<longrightarrow> parse_members (Suc n) s = parse_members n s)"
proof (induction n)
  case 0
  show ?case by simp
next
  case (Suc n)
  have v: "parse_value (Suc n) t = parse_value n t" if "2 * length t + 1 \<le> n" for t
    using Suc.IH that by blast
  have e: "parse_elements (Suc n) t = parse_elements n t" if "2 * length t + 2 \<le> n" for t
    using Suc.IH that by blast
  have m: "parse_members (Suc n) t = parse_members n t" if "2 * length t + 2 \<le> n" for t
    using Suc.IH that by blast
  have "parse_value (Suc (Suc n)) s = parse_value (Suc n) s" if "2 * length s + 1 \<le> Suc n" for s
    using m e that by (rule parse_value_fuel_step)
  moreover have "parse_elements (Suc (Suc n)) s = parse_elements (Suc n) s"
    if "2 * length s + 2 \<le> Suc n" for s
    using v e that by (rule parse_elements_fuel_step)
  moreover have "parse_members (Suc (Suc n)) s = parse_members (Suc n) s"
    if "2 * length s + 2 \<le> Suc n" for s
    using v m that by (rule parse_members_fuel_step)
  ultimately show ?case by blast
qed

lemma parse_value_fuel:
  "2 * length s + 1 \<le> n \<Longrightarrow> parse_value (n + k) s = parse_value n s"
proof (induction k)
  case 0
  show ?case by simp
next
  case (Suc k)
  then have "2 * length s + 1 \<le> n + k" by simp
  then have "parse_value (Suc (n + k)) s = parse_value (n + k) s"
    using parser_fuel_Suc[of "n + k"] by blast
  with Suc show ?case by simp
qed

lemma JSON_parse_fuel:
  assumes "2 * length s + 2 \<le> n"
  shows "JSON_parse s = (case parse_value n (skip_ws s) of
                     None \<Rightarrow> None
                   | Some (v, r) \<Rightarrow> if skip_ws r = [] then Some v else None)"
proof -
  have l: "2 * length (skip_ws s) + 1 \<le> 2 * length s + 2"
    using skip_ws_length[of s] by simp
  have n: "2 * length s + 2 + (n - (2 * length s + 2)) = n"
    using assms by simp
  have "parse_value (2 * length s + 2 + (n - (2 * length s + 2))) (skip_ws s)
      = parse_value (2 * length s + 2) (skip_ws s)"
    using l by (rule parse_value_fuel)
  then have "parse_value n (skip_ws s) = parse_value (2 * length s + 2) (skip_ws s)"
    by (simp only: n)
  then show ?thesis by (simp only: JSON_parse_def)
qed

lemma json_ws_is_ws: "json_ws c \<Longrightarrow> is_ws c"
  by (auto simp: json_ws_def is_ws_def)

lemma JSON_object_text_ends_with_brace:
  assumes p: "JSON_parse t = Some v"
    and b: "startsWith t LBRACE"
    and l: "\<not> is_ws (last t)"
  shows "t \<noteq> [] \<and> last t = RBRACE"
proof -
  from b obtain cs where t: "t = LBRACE # cs"
    by (cases t) (auto simp: startsWith_def)
  have sk: "skip_ws t = t"
    by (simp add: t skip_ws_def json_ws_def)
  from p obtain r where pv: "parse_value (2 * length t + 2) t = Some (v, r)" and r: "skip_ws r = []"
    unfolding JSON_parse_def sk by (auto split: option.splits prod.splits if_splits)
  from pv b have "suffix (RBRACE # r) t" by (rule parse_value_object_shape)
  then obtain pre where pre: "t = pre @ RBRACE # r"
    by (auto simp: suffix_def)
  have "r = []"
  proof (rule ccontr)
    assume "r \<noteq> []"
    then have "last t = last r" by (simp add: pre)
    moreover from r \<open>r \<noteq> []\<close> have "json_ws (last r)"
      by (simp add: skip_ws_def dropWhile_eq_Nil_conv)
    ultimately show False using l json_ws_is_ws by simp
  qed
  with pre show ?thesis by simp
qed

lemma gemini_json_text_pure:
  assumes "startsWith (trim s) LBRACE" and "last (trim s) = RBRACE"
  shows "gemini_json_text s = Inr (trim s)"
proof -
  from assms(1) have ne: "trim s \<noteq> []" by (auto simp: startsWith_def)
  then have "cleanup_trailing (trim s) = trim s"
    using assms(2) by (rule cleanup_trailing_noop)
  with ne assms(1) show ?thesis
    by (simp add: gemini_json_text_def Let_def trim_idem extract_json_def)
qed

text \<open>
  White space after a value is not read by the value: where the reader succeeds on a
  text followed by JSON white space, it succeeds on the text alone, with the same value.
\<close>

lemma json_ws_cases: "json_ws c \<longleftrightarrow> c = 0x20 \<or> c = 0x09 \<or> c = 0x0A \<or> c = 0x0D"
  by (simp add: json_ws_def)

lemma skip_ws_append_ws:
  "list_all json_ws w \<Longrightarrow> skip_ws (u @ w) = (if skip_ws u = [] then [] else skip_ws u @ w)"
  by (induction u) (auto simp: skip_ws_def dropWhile_eq_Nil_conv list_all_iff)

lemma skip_ws_trunc:
  assumes "list_all json_ws w" and "skip_ws (x @ w) = d # ds"
  obtains ds' where "ds = ds' @ w" and "skip_ws x = d # ds'"
proof -
  from assms have ne: "skip_ws x \<noteq> []" and eq: "skip_ws x @ w = d # ds"
    by (auto simp: skip_ws_append_ws split: if_splits)
  from ne obtain d' ds' where x: "skip_ws x = d' # ds'"
    by (cases "skip_ws x") auto
  with eq have "ds = ds' @ w" "skip_ws x = d # ds'" by auto
  then show ?thesis by (rule that)
qed

lemma hex_val_ws: "json_ws h \<Longrightarrow> hex_val h = None"
  by (auto simp: json_ws_def hex_val_def)

lemma unescape_ws: "json_ws h \<Longrightarrow> unescape h = None"
  by (auto simp: json_ws_def unescape_def)

lemma parse_chars_ws: "list_all json_ws w \<Longrightarrow> parse_chars w = None"
  by (induction w) (auto simp: json_ws_def)

lemma parse_chars_trunc:
  assumes w: "list_all json_ws w"
  shows "parse_chars (u @ w) = Some (str, r) \<Longrightarrow> \<exists>r'. r = r' @ w \<and> parse_chars u = Some (str, r')"
proof (induction u arbitrary: str r rule: length_induct)
  case (1 u)
  note IH = "1.IH"[rule_format]
  note p = "1.prems"
  have wN: "parse_chars w = None" using w by (rule parse_chars_ws)
  show ?case
  proof (cases u)
    case Nil
    with p wN show ?thesis by simp
  next
    case (Cons c cs)
    note u = Cons
    show ?thesis
    proof (cases "c = 0x22")
      case True
      with p show ?thesis by (simp add: u)
    next
      case nq: False
      show ?thesis
      proof (cases "c = 0x5C")
        case False
        with nq p obtain str' where s: "parse_chars (cs @ w) = Some (str', r)" "str = c # str'"
          and c: "\<not> c < 0x20"
          unfolding u by (auto split: if_splits option.splits)
        from s(1) obtain r' where "r = r' @ w" "parse_chars cs = Some (str', r')"
          using IH[of cs str' r] by (auto simp: u)
        with nq False c s(2) show ?thesis by (simp add: u)
      next
        case bs: True
        show ?thesis
        proof (cases cs)
          case Nil
          with p bs nq w show ?thesis
            unfolding u by (cases w) (auto simp: unescape_ws json_ws_def split: option.splits)
        next
          case (Cons e es)
          note cs = Cons
          show ?thesis
          proof (cases "e = 0x75")
            case False
            with nq bs p obtain str' x where s: "parse_chars (es @ w) = Some (str', r)"
              "str = x # str'" "unescape e = Some x"
              unfolding u cs by (auto split: option.splits)
            from s(1) obtain r' where "r = r' @ w" "parse_chars es = Some (str', r')"
              using IH[of es str' r] by (auto simp: u cs)
            with nq bs False s show ?thesis by (simp add: u cs)
          next
            case True
            with nq bs p obtain h1 h2 h3 h4 rest str' a b c' d
              where es: "es @ w = h1 # h2 # h3 # h4 # rest"
                and hv: "hex_val h1 = Some a" "hex_val h2 = Some b" "hex_val h3 = Some c'"
                  "hex_val h4 = Some d"
                and pr: "parse_chars rest = Some (str', r)"
                and str: "str = of_nat (((a * 16 + b) * 16 + c') * 16 + d) # str'"
              unfolding u cs by (auto split: list.splits option.splits)
            have nw: "\<not> json_ws h1" "\<not> json_ws h2" "\<not> json_ws h3" "\<not> json_ws h4"
              using hv hex_val_ws by auto
            from es nw w obtain rest' where es': "es = h1 # h2 # h3 # h4 # rest'"
              and rest: "rest = rest' @ w"
              by (auto simp: append_eq_Cons_conv)
            from pr rest obtain r' where "r = r' @ w" "parse_chars rest' = Some (str', r')"
              using IH[of rest' str' r] by (auto simp: u cs es')
            with nq bs True hv str show ?thesis by (simp add: u cs es')
          qed
        qed
      qed
    qed
  qed
qed

lemma strip_prefix_Cons:
  "strip_prefix (a # p) s = (case s of [] \<Rightarrow> None | c # cs \<Rightarrow> if c = a then strip_prefix p cs else None)"
  by (cases s) (auto simp: strip_prefix_def)

lemma strip_prefix_trunc:
  assumes w: "list_all json_ws w"
  shows "list_all (\<lambda>c. \<not> json_ws c) p \<Longrightarrow> strip_prefix p (u @ w) = Some r
    \<Longrightarrow> \<exists>r'. r = r' @ w \<and> strip_prefix p u = Some r'"
proof (induction p arbitrary: u)
  case Nil
  then show ?case by (simp add: strip_prefix_def)
next
  case (Cons a p)
  show ?case
  proof (cases u)
    case Nil
    with Cons.prems w show ?thesis
      by (cases w) (auto simp: strip_prefix_Cons split: if_splits)
  next
    case (Cons c cs)
    with Cons.prems Cons.IH[of cs] show ?thesis
      by (auto simp: strip_prefix_Cons split: if_splits)
  qed
qed

lemma ws_tail_startsWith:
  "list_all json_ws w \<Longrightarrow> \<not> json_ws c \<Longrightarrow> startsWith (x @ w) c = startsWith x c"
  by (cases x; cases w) (auto simp: startsWith_def)

lemma append_tl: "startsWith x c \<Longrightarrow> tl (x @ w) = tl x @ w"
  by (cases x) (auto simp: startsWith_def)

lemma not_digit_ws: "json_ws c \<Longrightarrow> \<not> is_digit c"
  by (auto simp: json_ws_def is_digit_def)

lemma ws_tail_takeWhile: "list_all json_ws w \<Longrightarrow> takeWhile is_digit (x @ w) = takeWhile is_digit x"
  by (induction x) (cases w; auto simp: not_digit_ws)+

lemma ws_tail_dropWhile: "list_all json_ws w \<Longrightarrow> dropWhile is_digit (x @ w) = dropWhile is_digit x @ w"
  by (induction x) (cases w; auto simp: not_digit_ws)+

lemma special_not_ws:
  "\<not> json_ws 0x2D" "\<not> json_ws 0x2E" "\<not> json_ws 0x65" "\<not> json_ws 0x45" "\<not> json_ws 0x2B"
  by (simp_all add: json_ws_def)

lemma parse_number_trunc_eq:
  assumes w: "list_all json_ws w"
  shows "parse_number (u @ w) = map_option (\<lambda>(q, r). (q, r @ w)) (parse_number u)"
proof -
  note sw = ws_tail_startsWith[OF w special_not_ws(1)] ws_tail_startsWith[OF w special_not_ws(2)]
    ws_tail_startsWith[OF w special_not_ws(3)] ws_tail_startsWith[OF w special_not_ws(4)]
    ws_tail_startsWith[OF w special_not_ws(5)]
  note tw = ws_tail_takeWhile[OF w] ws_tail_dropWhile[OF w]
  define s1 where "s1 = (if startsWith u 0x2D then tl u else u)"
  have 1: "(if startsWith (u @ w) 0x2D then tl (u @ w) else u @ w) = s1 @ w"
    by (simp add: s1_def sw append_tl)
  define s2 where "s2 = dropWhile is_digit s1"
  have 2: "dropWhile is_digit (s1 @ w) = s2 @ w"
    by (simp add: s2_def tw)
  define s3 where "s3 = (if startsWith s2 0x2E then dropWhile is_digit (tl s2) else s2)"
  have 3: "(if startsWith (s2 @ w) 0x2E then dropWhile is_digit (tl (s2 @ w)) else s2 @ w) = s3 @ w"
    by (simp add: s3_def sw tw append_tl)
  have f3: "(if startsWith (s2 @ w) 0x2E then takeWhile is_digit (tl (s2 @ w)) else [])
      = (if startsWith s2 0x2E then takeWhile is_digit (tl s2) else [])"
    by (simp add: sw tw append_tl)
  define he where "he \<longleftrightarrow> startsWith s3 0x65 \<or> startsWith s3 0x45"
  have he: "(startsWith (s3 @ w) 0x65 \<or> startsWith (s3 @ w) 0x45) = he"
    by (simp add: he_def sw)
  define s4 where "s4 = (if he then tl s3 else s3)"
  have 4: "(if he then tl (s3 @ w) else s3 @ w) = s4 @ w"
    by (auto simp: s4_def he_def append_tl)
  define s5 where "s5 = (if he \<and> (startsWith s4 0x2D \<or> startsWith s4 0x2B) then tl s4 else s4)"
  have 5: "(if he \<and> (startsWith (s4 @ w) 0x2D \<or> startsWith (s4 @ w) 0x2B) then tl (s4 @ w) else s4 @ w)
      = s5 @ w"
    by (auto simp: s5_def sw append_tl)
  have 6: "(if he then dropWhile is_digit (s5 @ w) else s3 @ w)
      = (if he then dropWhile is_digit s5 else s3) @ w"
    by (simp add: tw)
  have f6: "(if he then takeWhile is_digit (s5 @ w) else []) = (if he then takeWhile is_digit s5 else [])"
    by (simp add: tw)
  have L: "parse_number (u @ w) =
     (let neg = startsWith u 0x2D;
          ip = takeWhile is_digit s1;
          has_frac = startsWith s2 0x2E;
          fp = (if has_frac then takeWhile is_digit (tl s2) else []);
          eneg = (he \<and> startsWith s4 0x2D);
          ep = (if he then takeWhile is_digit s5 else []);
          s6 = (if he then dropWhile is_digit s5 else s3) @ w;
          mant = (of_nat (digits_val ip) + of_nat (digits_val fp) / 10 ^ length fp :: rat);
          scaled = (if eneg then mant / 10 ^ digits_val ep else mant * 10 ^ digits_val ep)
      in if ip = [] \<or> (1 < length ip \<and> hd ip = 0x30) \<or> (has_frac \<and> fp = []) \<or> (he \<and> ep = [])
         then None
         else Some (if neg then - scaled else scaled, s6))"
    unfolding parse_number_def
    apply (simp only: 1 Let_def)
    apply (simp only: 2 tw(1))
    apply (simp only: 3 f3)
    apply (simp only: he)
    apply (simp only: 4)
    apply (simp only: 5)
    apply (simp only: sw)
    apply (simp only: 6 f6)
    done
  have R: "parse_number u =
     (let neg = startsWith u 0x2D;
          ip = takeWhile is_digit s1;
          has_frac = startsWith s2 0x2E;
          fp = (if has_frac then takeWhile is_digit (tl s2) else []);
          eneg = (he \<and> startsWith s4 0x2D);
          ep = (if he then takeWhile is_digit s5 else []);
          s6 = (if he then dropWhile is_digit s5 else s3);
          mant = (of_nat (digits_val ip) + of_nat (digits_val fp) / 10 ^ length fp :: rat);
          scaled = (if eneg then mant / 10 ^ digits_val ep else mant * 10 ^ digits_val ep)
      in if ip = [] \<or> (1 < length ip \<and> hd ip = 0x30) \<or> (has_frac \<and> fp = []) \<or> (he \<and> ep = [])
         then None
         else Some (if neg then - scaled else scaled, s6))"
    unfolding parse_number_def s1_def s2_def s3_def he_def s4_def s5_def Let_def
    by (rule refl)
  show ?thesis
    unfolding L R by (simp add: Let_def)
qed

lemma parse_number_trunc:
  assumes "list_all json_ws w" and "parse_number (u @ w) = Some (q, r)"
  shows "\<exists>r'. r = r' @ w \<and> parse_number u = Some (q, r')"
proof -
  from parse_number_trunc_eq[OF assms(1), of u] assms(2) show ?thesis
    by (cases "parse_number u") auto
qed

lemma parse_number_ws: "list_all json_ws w \<Longrightarrow> parse_number w = None"
proof -
  assume w: "list_all json_ws w"
  have "\<not> startsWith w 0x2D"
    using w by (cases w) (auto simp: startsWith_def json_ws_def)
  moreover have "takeWhile is_digit w = []"
    using w by (cases w) (auto simp: not_digit_ws)
  ultimately show ?thesis
    by (simp add: parse_number_def Let_def)
qed

lemma parse_value_ws: "list_all json_ws w \<Longrightarrow> parse_value n w = None"
proof (cases n)
  case 0
  then show ?thesis by simp
next
  case (Suc m)
  assume w: "list_all json_ws w"
  show ?thesis
  proof (cases w)
    case Nil
    with Suc show ?thesis by simp
  next
    case (Cons c cs)
    with w have c: "json_ws c" by simp
    have "parse_number w = None" using w by (rule parse_number_ws)
    with c show ?thesis
      unfolding Suc Cons by (auto simp: json_ws_def)
  qed
qed

lemma literal_not_ws:
  "list_all (\<lambda>c. \<not> json_ws c) (js ''true'')"
  "list_all (\<lambda>c. \<not> json_ws c) (js ''false'')"
  "list_all (\<lambda>c. \<not> json_ws c) (js ''null'')"
  by (simp_all add: js_def json_ws_def)

lemma parse_value_trunc_step:
  assumes w: "list_all json_ws w"
    and IHm: "\<And>u kvs r. parse_members n (u @ w) = Some (kvs, r)
                \<Longrightarrow> \<exists>r'. r = r' @ w \<and> parse_members n u = Some (kvs, r')"
    and IHe: "\<And>u vs r. parse_elements n (u @ w) = Some (vs, r)
                \<Longrightarrow> \<exists>r'. r = r' @ w \<and> parse_elements n u = Some (vs, r')"
    and pv: "parse_value (Suc n) (u @ w) = Some (v, r)"
  shows "\<exists>r'. r = r' @ w \<and> parse_value (Suc n) u = Some (v, r')"
proof (cases u)
  case Nil
  with pv parse_value_ws[OF w, of "Suc n"] show ?thesis by simp
next
  case (Cons c cs)
  note u = Cons
  from pv have pv': "parse_value (Suc n) (c # (cs @ w)) = Some (v, r)"
    by (simp add: u)
  show ?thesis
  proof (cases "c = LBRACE")
    case True
    from pv' True obtain d ds where sk: "skip_ws (cs @ w) = d # ds"
      by (cases "skip_ws (cs @ w)") auto
    from w sk obtain ds' where ds: "ds = ds' @ w" and sk': "skip_ws cs = d # ds'"
      by (rule skip_ws_trunc)
    show ?thesis
    proof (cases "d = RBRACE")
      case True
      with pv' \<open>c = LBRACE\<close> sk have "r = ds" "v = JObj []" by simp_all
      with ds sk' True \<open>c = LBRACE\<close> show ?thesis by (simp add: u)
    next
      case False
      with pv' \<open>c = LBRACE\<close> sk obtain kvs
        where pm: "parse_members n (d # ds) = Some (kvs, r)" and v: "v = JObj kvs"
        by (auto split: option.splits)
      from pm have "parse_members n ((d # ds') @ w) = Some (kvs, r)"
        by (simp add: ds)
      then obtain r' where "r = r' @ w" "parse_members n (d # ds') = Some (kvs, r')"
        using IHm by blast
      with v sk' False \<open>c = LBRACE\<close> show ?thesis by (simp add: u)
    qed
  next
    case nb: False
    show ?thesis
    proof (cases "c = 0x5B")
      case True
      from pv' nb True obtain d ds where sk: "skip_ws (cs @ w) = d # ds"
        by (cases "skip_ws (cs @ w)") auto
      from w sk obtain ds' where ds: "ds = ds' @ w" and sk': "skip_ws cs = d # ds'"
        by (rule skip_ws_trunc)
      show ?thesis
      proof (cases "d = 0x5D")
        case True
        with pv' nb \<open>c = 0x5B\<close> sk have "r = ds" "v = JArr []" by simp_all
        with ds sk' True nb \<open>c = 0x5B\<close> show ?thesis by (simp add: u)
      next
        case False
        with pv' nb \<open>c = 0x5B\<close> sk obtain vs
          where pe: "parse_elements n (d # ds) = Some (vs, r)" and v: "v = JArr vs"
          by (auto split: option.splits)
        from pe have "parse_elements n ((d # ds') @ w) = Some (vs, r)"
          by (simp add: ds)
        then obtain r' where "r = r' @ w" "parse_elements n (d # ds') = Some (vs, r')"
          using IHe by blast
        with v sk' False nb \<open>c = 0x5B\<close> show ?thesis by (simp add: u)
      qed
    next
      case na: False
      show ?thesis
      proof (cases "c = 0x22")
        case True
        with pv' nb na obtain str where pc: "parse_chars (cs @ w) = Some (str, r)"
          and v: "v = JStr str"
          by (auto split: option.splits)
        from parse_chars_trunc[OF w pc] obtain r'
          where "r = r' @ w" "parse_chars cs = Some (str, r')" by blast
        with v True nb na show ?thesis by (simp add: u)
      next
        case nq: False
        show ?thesis
        proof (cases "c = 0x74")
          case True
          with pv' nb na nq have sp: "strip_prefix (js ''true'') (u @ w) = Some r"
            and v: "v = JBool True"
            by (simp_all add: u split: option.splits)
          from strip_prefix_trunc[OF w literal_not_ws(1) sp] obtain r'
            where "r = r' @ w" "strip_prefix (js ''true'') u = Some r'" by blast
          with v True nb na nq show ?thesis by (simp add: u)
        next
          case nt: False
          show ?thesis
          proof (cases "c = 0x66")
            case True
            with pv' nb na nq nt have sp: "strip_prefix (js ''false'') (u @ w) = Some r"
              and v: "v = JBool False"
              by (simp_all add: u split: option.splits)
            from strip_prefix_trunc[OF w literal_not_ws(2) sp] obtain r'
              where "r = r' @ w" "strip_prefix (js ''false'') u = Some r'" by blast
            with v True nb na nq nt show ?thesis by (simp add: u)
          next
            case nf: False
            show ?thesis
            proof (cases "c = 0x6E")
              case True
              with pv' nb na nq nt nf have sp: "strip_prefix (js ''null'') (u @ w) = Some r"
                and v: "v = JNull"
                by (simp_all add: u split: option.splits)
              from strip_prefix_trunc[OF w literal_not_ws(3) sp] obtain r'
                where "r = r' @ w" "strip_prefix (js ''null'') u = Some r'" by blast
              with v True nb na nq nt nf show ?thesis by (simp add: u)
            next
              case False
              with pv' nb na nq nt nf obtain q where pn: "parse_number (u @ w) = Some (q, r)"
                and v: "v = JNum q"
                by (auto simp: u split: option.splits prod.splits)
              from parse_number_trunc[OF w pn] obtain r'
                where "r = r' @ w" "parse_number u = Some (q, r')" by blast
              with v False nb na nq nt nf show ?thesis by (simp add: u)
            qed
          qed
        qed
      qed
    qed
  qed
qed

lemma parse_elements_Nil: "parse_elements n [] = None"
  by (cases n; cases "n - 1") auto

lemma parse_members_Nil: "parse_members n [] = None"
  by (cases n) auto

lemma parse_elements_trunc_step:
  assumes w: "list_all json_ws w"
    and IHv: "\<And>u v r. parse_value n (u @ w) = Some (v, r)
                \<Longrightarrow> \<exists>r'. r = r' @ w \<and> parse_value n u = Some (v, r')"
    and IHe: "\<And>u vs r. parse_elements n (u @ w) = Some (vs, r)
                \<Longrightarrow> \<exists>r'. r = r' @ w \<and> parse_elements n u = Some (vs, r')"
    and pe: "parse_elements (Suc n) (u @ w) = Some (vs, r)"
  shows "\<exists>r'. r = r' @ w \<and> parse_elements (Suc n) u = Some (vs, r')"
proof -
  from pe obtain v r1 where v: "parse_value n (u @ w) = Some (v, r1)"
    by (auto split: option.splits)
  then obtain r1' where r1: "r1 = r1' @ w" and v': "parse_value n u = Some (v, r1')"
    using IHv by blast
  from pe v obtain d ds where sk: "skip_ws (r1' @ w) = d # ds"
    unfolding r1 by (cases "skip_ws (r1' @ w)") auto
  from w sk obtain ds' where ds: "ds = ds' @ w" and sk': "skip_ws r1' = d # ds'"
    by (rule skip_ws_trunc)
  show ?thesis
  proof (cases "d = 0x5D")
    case True
    with pe v sk have "r = ds" "vs = [v]" by (simp_all add: r1)
    with ds v' sk' True show ?thesis by simp
  next
    case False
    with pe v sk have comma: "d = 0x2C"
      by (auto simp: r1 split: if_splits)
    with pe v sk False obtain vs' where rest: "parse_elements n (skip_ws ds) = Some (vs', r)"
      and vs: "vs = v # vs'"
      by (auto simp: r1 split: option.splits)
    have "skip_ws ds' \<noteq> []"
    proof
      assume "skip_ws ds' = []"
      then have "skip_ws ds = []" by (simp add: ds skip_ws_append_ws[OF w])
      with rest show False by (simp add: parse_elements_Nil)
    qed
    then have "skip_ws ds = skip_ws ds' @ w"
      by (simp add: ds skip_ws_append_ws[OF w])
    with rest obtain r' where "r = r' @ w" "parse_elements n (skip_ws ds') = Some (vs', r')"
      using IHe by force
    with vs v' sk' False comma show ?thesis by simp
  qed
qed

lemma parse_members_trunc_step:
  assumes w: "list_all json_ws w"
    and IHv: "\<And>u v r. parse_value n (u @ w) = Some (v, r)
                \<Longrightarrow> \<exists>r'. r = r' @ w \<and> parse_value n u = Some (v, r')"
    and IHm: "\<And>u kvs r. parse_members n (u @ w) = Some (kvs, r)
                \<Longrightarrow> \<exists>r'. r = r' @ w \<and> parse_members n u = Some (kvs, r')"
    and pm: "parse_members (Suc n) (u @ w) = Some (kvs, r)"
  shows "\<exists>r'. r = r' @ w \<and> parse_members (Suc n) u = Some (kvs, r')"
proof (cases u)
  case Nil
  with pm w show ?thesis
    by (cases w) (auto simp: json_ws_def)
next
  case (Cons q cs)
  note u = Cons
  from pm have pm': "parse_members (Suc n) (q # (cs @ w)) = Some (kvs, r)"
    by (simp add: u)
  then have q: "q = 0x22"
    by (auto split: if_splits)
  from pm' q obtain k r0 where pc: "parse_chars (cs @ w) = Some (k, r0)"
    by (auto split: option.splits)
  from parse_chars_trunc[OF w pc] obtain r0' where r0: "r0 = r0' @ w"
    and pc': "parse_chars cs = Some (k, r0')" by blast
  from pm' q pc obtain colon r1 where sk0: "skip_ws (r0' @ w) = colon # r1"
    unfolding r0 by (cases "skip_ws (r0' @ w)") auto
  from w sk0 obtain r1' where r1: "r1 = r1' @ w" and sk0': "skip_ws r0' = colon # r1'"
    by (rule skip_ws_trunc)
  from pm' q pc sk0 have colon: "colon = 0x3A"
    by (auto simp: r0 split: if_splits)
  from pm' q pc sk0 colon obtain v r2 where pv: "parse_value n (skip_ws r1) = Some (v, r2)"
    by (auto simp: r0 split: option.splits)
  have "skip_ws r1' \<noteq> []"
  proof
    assume "skip_ws r1' = []"
    then have "skip_ws r1 = []" by (simp add: r1 skip_ws_append_ws[OF w])
    with pv show False by (cases n) auto
  qed
  then have sk1: "skip_ws r1 = skip_ws r1' @ w"
    by (simp add: r1 skip_ws_append_ws[OF w])
  with pv obtain r2' where r2: "r2 = r2' @ w" and pv': "parse_value n (skip_ws r1') = Some (v, r2')"
    using IHv by force
  from pm' q pc sk0 colon pv obtain d ds where sk2: "skip_ws (r2' @ w) = d # ds"
    unfolding r0 r2 by (cases "skip_ws (r2' @ w)") auto
  from w sk2 obtain ds' where ds: "ds = ds' @ w" and sk2': "skip_ws r2' = d # ds'"
    by (rule skip_ws_trunc)
  show ?thesis
  proof (cases "d = RBRACE")
    case True
    with pm' q pc sk0 colon pv sk2 have "r = ds" "kvs = [(k, v)]"
      by (simp_all add: r0 r2)
    with ds q pc' sk0' colon pv' sk2' True show ?thesis by (simp add: u)
  next
    case False
    with pm' q pc sk0 colon pv sk2 have comma: "d = 0x2C"
      by (auto simp: r0 r2 split: if_splits)
    with pm' q pc sk0 colon pv sk2 False obtain kvs'
      where rest: "parse_members n (skip_ws ds) = Some (kvs', r)" and kvs: "kvs = (k, v) # kvs'"
      by (auto simp: r0 r2 split: option.splits)
    have "skip_ws ds' \<noteq> []"
    proof
      assume "skip_ws ds' = []"
      then have "skip_ws ds = []" by (simp add: ds skip_ws_append_ws[OF w])
      with rest show False by (simp add: parse_members_Nil)
    qed
    then have "skip_ws ds = skip_ws ds' @ w"
      by (simp add: ds skip_ws_append_ws[OF w])
    with rest obtain r' where "r = r' @ w" "parse_members n (skip_ws ds') = Some (kvs', r')"
      using IHm by force
    with kvs q pc' sk0' colon pv' sk2' False comma show ?thesis by (simp add: u)
  qed
qed

lemma parser_trunc:
  assumes w: "list_all json_ws w"
  shows "(\<forall>u v r. parse_value n (u @ w) = Some (v, r)
           \<longrightarrow> (\<exists>r'. r = r' @ w \<and> parse_value n u = Some (v, r')))
   \<and> (\<forall>u vs r. parse_elements n (u @ w) = Some (vs, r)
           \<longrightarrow> (\<exists>r'. r = r' @ w \<and> parse_elements n u = Some (vs, r')))
   \<and> (\<forall>u kvs r. parse_members n (u @ w) = Some (kvs, r)
           \<longrightarrow> (\<exists>r'. r = r' @ w \<and> parse_members n u = Some (kvs, r')))"
proof (induction n)
  case 0
  show ?case by simp
next
  case (Suc n)
  have IHv: "\<exists>r'. r = r' @ w \<and> parse_value n u = Some (v, r')"
    if "parse_value n (u @ w) = Some (v, r)" for u v r
    using Suc.IH that by blast
  have IHe: "\<exists>r'. r = r' @ w \<and> parse_elements n u = Some (vs, r')"
    if "parse_elements n (u @ w) = Some (vs, r)" for u vs r
    using Suc.IH that by blast
  have IHm: "\<exists>r'. r = r' @ w \<and> parse_members n u = Some (kvs, r')"
    if "parse_members n (u @ w) = Some (kvs, r)" for u kvs r
    using Suc.IH that by blast
  have "\<exists>r'. r = r' @ w \<and> parse_value (Suc n) u = Some (v, r')"
    if "parse_value (Suc n) (u @ w) = Some (v, r)" for u v r
    using w IHm IHe that by (rule parse_value_trunc_step)
  moreover have "\<exists>r'. r = r' @ w \<and> parse_elements (Suc n) u = Some (vs, r')"
    if "parse_elements (Suc n) (u @ w) = Some (vs, r)" for u vs r
    using w IHv IHe that by (rule parse_elements_trunc_step)
  moreover have "\<exists>r'. r = r' @ w \<and> parse_members (Suc n) u = Some (kvs, r')"
    if "parse_members (Suc n) (u @ w) = Some (kvs, r)" for u kvs r
    using w IHv IHm that by (rule parse_members_trunc_step)
  ultimately show ?case by blast
qed

lemma digit_not_ws: "is_digit c \<Longrightarrow> \<not> is_ws c"
proof
  assume d: "is_digit c" and w: "is_ws c"
  from d have le: "c \<le> 0x39" and ge: "0x30 \<le> c" by (simp_all add: is_digit_def)
  have "\<not> (0x2000 \<le> c)"
  proof
    assume "0x2000 \<le> c"
    then have "(0x2000 :: 16 word) \<le> 0x39" using le by (rule order_trans)
    then show False by simp
  qed
  with w le ge show False
    by (auto simp: is_ws_def)
qed

lemma parse_number_hd:
  assumes "parse_number s = Some (q, r)"
  obtains c cs where "s = c # cs" and "c = 0x2D \<or> is_digit c"
proof (cases "startsWith s 0x2D")
  case True
  then obtain cs where "s = 0x2D # cs"
    by (cases s) (auto simp: startsWith_def)
  then show ?thesis by (intro that) auto
next
  case False
  with assms have "takeWhile is_digit s \<noteq> []"
    by (auto simp: parse_number_def Let_def split: if_splits)
  then obtain c cs where "s = c # cs" "is_digit c"
    by (cases s) (auto split: if_splits)
  then show ?thesis by (intro that) auto
qed

lemma parse_value_hd:
  assumes "parse_value n s = Some (v, r)"
  obtains c cs where "s = c # cs" and "\<not> is_ws c"
proof -
  from assms obtain m where n: "n = Suc m" by (cases n) auto
  from assms obtain c cs where s: "s = c # cs"
    unfolding n by (cases s) auto
  have "\<not> is_ws c"
  proof (cases "c = LBRACE \<or> c = 0x5B \<or> c = 0x22 \<or> c = 0x74 \<or> c = 0x66 \<or> c = 0x6E")
    case True
    then show ?thesis by (auto simp: is_ws_def)
  next
    case False
    with assms obtain q where "parse_number s = Some (q, r)"
      unfolding n s by (auto split: option.splits)
    then obtain c' cs' where "s = c' # cs'" "c' = 0x2D \<or> is_digit c'"
      by (rule parse_number_hd)
    then show ?thesis
      unfolding s by (auto simp: digit_not_ws) (simp add: is_ws_def)
  qed
  with s show ?thesis by (rule that)
qed

lemma dropWhile_ws_skip: "dropWhile is_ws (skip_ws s) = dropWhile is_ws s"
  by (induction s) (auto simp: skip_ws_def json_ws_is_ws)

lemma skip_ws_Nil_all: "skip_ws r = [] \<Longrightarrow> list_all json_ws r"
  by (simp add: skip_ws_def dropWhile_eq_Nil_conv list_all_iff)

lemma dropWhile_all_append: "list_all P xs \<Longrightarrow> dropWhile P (xs @ ys) = dropWhile P ys"
  by (induction xs) auto

lemma JSON_parse_object_trim:
  assumes p: "JSON_parse s = Some v" and b: "startsWith (trim s) LBRACE"
  shows "JSON_parse (trim s) = Some v"
proof -
  let ?N = "2 * length s + 2"
  from p obtain r where pv: "parse_value ?N (skip_ws s) = Some (v, r)" and r: "skip_ws r = []"
    unfolding JSON_parse_def by (auto split: option.splits prod.splits if_splits)
  from r have w: "list_all json_ws r" by (rule skip_ws_Nil_all)
  then have wi: "list_all is_ws r"
    by (auto simp: list_all_iff json_ws_is_ws)
  from pv obtain x xs where s1: "skip_ws s = x # xs" and x: "\<not> is_ws x"
    by (rule parse_value_hd)
  have a: "dropWhile is_ws s = skip_ws s"
    using dropWhile_ws_skip[of s] x by (simp add: s1)
  from pv have "suffix r (skip_ws s)"
    using parser_suffix[of ?N] by blast
  then obtain c where c: "skip_ws s = c @ r"
    by (auto simp: suffix_def)
  from pv have "parse_value ?N (c @ r) = Some (v, r)" by (simp add: c)
  then obtain r' where "r = r' @ r" "parse_value ?N c = Some (v, r')"
    using parser_trunc[OF w, of ?N] by blast
  then have pc: "parse_value ?N c = Some (v, [])" by simp
  then obtain y ys where cy: "c = y # ys" and y: "\<not> is_ws y"
    by (rule parse_value_hd)
  have t: "trim s = rev (dropWhile is_ws (rev c))"
    using wi by (simp add: trim_def a c dropWhile_all_append)
  have ty: "startsWith c LBRACE"
  proof -
    from b obtain ts where ts: "trim s = LBRACE # ts"
      by (cases "trim s") (auto simp: startsWith_def)
    have "prefix (trim s) c"
      unfolding t by (metis prefix_def rev_append rev_rev_ident takeWhile_dropWhile_id)
    with ts show ?thesis
      by (auto simp: cy startsWith_def prefix_def)
  qed
  with pc have "suffix [RBRACE] c" by (rule parse_value_object_shape)
  then have "last c = RBRACE" "c \<noteq> []"
    by (auto simp: suffix_def)
  then have "dropWhile is_ws (rev c) = rev c"
    by (intro dropWhile_hd_id) (simp add: hd_rev is_ws_def)
  with t have tc: "trim s = c" by simp
  have sk: "skip_ws c = c"
    using ty by (cases c) (auto simp: startsWith_def skip_ws_def json_ws_def)
  have "length c \<le> length s"
    using suffix_length_le[OF suffix_skip_ws[of s]] by (simp add: c)
  then have "2 * length c + 2 \<le> ?N" by simp
  then have "JSON_parse c = (case parse_value ?N (skip_ws c) of
                     None \<Rightarrow> None
                   | Some (v, r) \<Rightarrow> if skip_ws r = [] then Some v else None)"
    by (rule JSON_parse_fuel)
  with pc sk show ?thesis by (simp add: tc skip_ws_def)
qed

text \<open>
  \<open>trim\<close> strips more than JSON allows around a value: a response that starts with a
  byte order mark passes the path, and \<open>JSON.parse\<close> of the untrimmed response throws.
\<close>

theorem byte_order_mark_not_roundtrip:
  "startsWith (trim sample_bom) LBRACE
   \<and> JSON_parse (trim sample_bom) = Some (JObj [(js ''a'', JStr (js ''b''))])
   \<and> gemini_parse sample_bom = Inr (JObj [(js ''a'', JStr (js ''b''))])
   \<and> JSON_parse sample_bom = None"
  by code_simp

text \<open>
  C4.  Let the trimmed response be a JSON object text: it starts with an opening brace
  and \<open>JSON.parse\<close> accepts it, with value \<open>v\<close>.  Then the string the Gemini path hands
  to \<open>JSON.parse\<close> is the whole trimmed text, the cut after the last closing brace
  changes nothing, and the path parses to \<open>v\<close>, the value of \<open>JSON.parse\<close> on the trimmed
  text.  \<open>JSON.parse\<close> of the untrimmed response either throws or gives \<open>v\<close> as well.
\<close>

theorem pure_json_roundtrip:
  assumes "JSON_parse (trim s) = Some v" and "startsWith (trim s) LBRACE"
  shows "gemini_json_text s = Inr (trim s)
         \<and> cleanup_trailing (trim s) = trim s
         \<and> gemini_parse s = Inr v
         \<and> (JSON_parse s = None \<or> JSON_parse s = Some v)"
proof -
  from assms(2) have ne: "trim s \<noteq> []" by (auto simp: startsWith_def)
  then have "\<not> is_ws (last (trim s))"
    by (cases s rule: trim_cases) simp_all
  with assms have last: "last (trim s) = RBRACE"
    using JSON_object_text_ends_with_brace by blast
  with assms(2) have 1: "gemini_json_text s = Inr (trim s)"
    by (rule gemini_json_text_pure)
  have 2: "cleanup_trailing (trim s) = trim s"
    using ne last by (rule cleanup_trailing_noop)
  from 1 assms(1) have 3: "gemini_parse s = Inr v"
    by (simp add: gemini_parse_def)
  have 4: "JSON_parse s = None \<or> JSON_parse s = Some v"
  proof (cases "JSON_parse s")
    case None
    then show ?thesis by simp
  next
    case (Some v')
    then have "JSON_parse (trim s) = Some v'"
      using assms(2) by (rule JSON_parse_object_trim)
    with assms(1) Some show ?thesis by simp
  qed
  from 1 2 3 4 show ?thesis by simp
qed

theorem pure_json_roundtrip_witness:
  "gemini_json_text sample_padded = Inr (trim sample_padded)
   \<and> cleanup_trailing (trim sample_padded) = trim sample_padded
   \<and> gemini_parse sample_padded =
       Inr (JObj [(js ''a'', JArr [JNum 1, JObj [(js ''b'', JStr (js ''}''))]]), (js ''c'', JNull)])
   \<and> JSON_parse sample_padded =
       Some (JObj [(js ''a'', JArr [JNum 1, JObj [(js ''b'', JStr (js ''}''))]]), (js ''c'', JNull)])"
proof -
  have p: "JSON_parse (trim sample_padded) =
      Some (JObj [(js ''a'', JArr [JNum 1, JObj [(js ''b'', JStr (js ''}''))]]), (js ''c'', JNull)])"
    by code_simp
  have b: "startsWith (trim sample_padded) LBRACE"
    by code_simp
  have n: "JSON_parse sample_padded \<noteq> None"
    by code_simp
  show ?thesis
    using pure_json_roundtrip [OF p b] n by simp
qed

section \<open>Fenced code blocks\<close>

lemma js_fence: "js ''```'' = fence"
  by (simp add: js_def fence_def)

lemma star_chr_Nil: "star_m (chr_m P) [] = [[]]"
  by (subst star_m.simps) (simp add: chr_m_def)

lemma star_chr_Cons:
  "star_m (chr_m P) (c # cs) = (if P c then star_m (chr_m P) cs @ [c # cs] else [c # cs])"
  by (subst star_m.simps) (simp add: chr_m_def)

lemma lazy_any_Nil: "lazy_m any_m [] = [[]]"
  by (subst lazy_m.simps) (simp add: any_m_def chr_m_def)

lemma lazy_any_Cons: "lazy_m any_m (c # cs) = (c # cs) # lazy_m any_m cs"
  by (subst lazy_m.simps) (simp add: any_m_def chr_m_def)

lemma lit_m_append: "lit_m p (p @ s) = [s]"
  by (induction p) (simp_all add: eps_m_def seq_m_def chr_m_def)

lemma lit_m_hd_neq: "s = [] \<or> hd s \<noteq> c \<Longrightarrow> lit_m (c # p) s = []"
  by (cases s) (auto simp: seq_m_def chr_m_def)

lemma lit_fence_Cons:
  "lit_m fence (a # s) =
     (if a = BACKTICK then (case s of b # c # r \<Rightarrow> if b = BACKTICK \<and> c = BACKTICK then [r] else [] | _ \<Rightarrow> [])
      else [])"
  by (auto simp: fence_def seq_m_def chr_m_def eps_m_def split: list.splits)

lemma post_fence_Cons:
  "post_fence (c # cs) =
     (if is_ws c then post_fence cs @ lit_m fence (c # cs) else lit_m fence (c # cs))"
  by (simp add: post_fence_def seq_m_def ws_m_def star_chr_Cons js_fence)

lemma post_fence_fence: "post_fence (fence @ s) = [s]"
proof -
  have "\<not> is_ws BACKTICK" by (simp add: is_ws_def)
  then have "post_fence (fence @ s) = lit_m fence (fence @ s)"
    by (simp add: fence_def post_fence_Cons)
  then show ?thesis by (simp add: lit_m_append)
qed

lemma post_fence_ws:
  "list_all is_ws w \<Longrightarrow> \<exists>cs. post_fence (w @ fence @ s) = s # cs"
  by (induction w) (auto simp: post_fence_fence post_fence_Cons)

lemma not_ws_RBRACE: "\<not> is_ws RBRACE" and not_ws_LBRACE: "\<not> is_ws LBRACE"
  and not_ws_BACKTICK: "\<not> is_ws BACKTICK"
  by (simp_all add: is_ws_def)

lemma post_fence_fails:
  "t \<noteq> [] \<Longrightarrow> last t = RBRACE \<Longrightarrow> \<not> has_fence t \<Longrightarrow> post_fence (t @ rest) = []"
proof (induction t)
  case Nil
  then show ?case by simp
next
  case (Cons c t)
  have lit: "lit_m fence (c # t @ rest) = []"
  proof (cases t)
    case Nil
    with Cons.prems show ?thesis by (simp add: lit_fence_Cons)
  next
    case (Cons x t')
    note t = this
    show ?thesis
    proof (cases t')
      case Nil
      with t Cons.prems show ?thesis by (simp add: lit_fence_Cons split: list.splits)
    next
      case (Cons y t'')
      with t Cons.prems show ?thesis by (auto simp: lit_fence_Cons)
    qed
  qed
  show ?case
  proof (cases "is_ws c")
    case False
    with lit show ?thesis by (simp add: post_fence_Cons)
  next
    case True
    with Cons.prems have "t \<noteq> []" by (auto simp: not_ws_RBRACE)
    moreover from this Cons.prems have "last t = RBRACE" by simp
    moreover from Cons.prems have "\<not> has_fence t"
      by (cases t rule: has_fence.cases) auto
    ultimately have "post_fence (t @ rest) = []" by (rule Cons.IH)
    with lit True show ?thesis by (simp add: post_fence_Cons)
  qed
qed


lemma first_fence_after:
  assumes fails: "\<And>t'. t' \<noteq> [] \<Longrightarrow> suffix t' t \<Longrightarrow> post (t' @ rest) = []"
    and ok: "post rest = c0 # cs"
  shows "\<exists>more. concat (map (\<lambda>b. map (\<lambda>c. (a, b, c)) (post b)) (lazy_m any_m (t @ rest)))
           = (a, rest, c0) # more"
  using fails
proof (induction t)
  case Nil
  show ?case
    using ok by (cases rest) (auto simp: lazy_any_Nil lazy_any_Cons)
next
  case (Cons x t)
  have "post ((x # t) @ rest) = []"
    by (rule Cons.prems) simp_all
  moreover have "\<exists>more. concat (map (\<lambda>b. map (\<lambda>c. (a, b, c)) (post b)) (lazy_m any_m (t @ rest)))
           = (a, rest, c0) # more"
    by (rule Cons.IH) (simp add: Cons.prems suffix_Cons)
  ultimately show ?case
    by (simp add: lazy_any_Cons)
qed

lemma has_fence_append_left: "has_fence t \<Longrightarrow> has_fence (l @ t)"
proof (induction l)
  case Nil
  then show ?case by simp
next
  case (Cons x l)
  then have "has_fence (l @ t)" by simp
  then show ?case by (cases "l @ t" rule: has_fence.cases) auto
qed

lemma has_fence_append_right: "has_fence t \<Longrightarrow> has_fence (t @ r)"
  by (induction t rule: has_fence.induct) auto

lemma has_fence_suffix: "suffix t' t \<Longrightarrow> has_fence t' \<Longrightarrow> has_fence t"
  by (auto simp: suffix_def has_fence_append_left)

lemma trim_decompose:
  obtains l r where "s = l @ trim s @ r" "list_all is_ws l" "list_all is_ws r"
proof -
  let ?a = "dropWhile is_ws s"
  have 1: "s = takeWhile is_ws s @ ?a" by simp
  have 2: "?a = trim s @ rev (takeWhile is_ws (rev ?a))"
    unfolding trim_def by (metis rev_append rev_rev_ident takeWhile_dropWhile_id)
  have "s = takeWhile is_ws s @ trim s @ rev (takeWhile is_ws (rev ?a))"
    using 1 2 by simp
  moreover have "list_all is_ws (takeWhile is_ws s)"
    by (auto simp: list_all_iff dest: set_takeWhileD)
  moreover have "list_all is_ws (rev (takeWhile is_ws (rev ?a)))"
    by (auto simp: list_all_iff dest: set_takeWhileD)
  ultimately show ?thesis by (rule that)
qed

lemma trim_id: "s \<noteq> [] \<Longrightarrow> \<not> is_ws (hd s) \<Longrightarrow> \<not> is_ws (last s) \<Longrightarrow> trim s = s"
proof -
  assume a: "s \<noteq> []" "\<not> is_ws (hd s)" "\<not> is_ws (last s)"
  then have "dropWhile is_ws s = s" by (simp add: dropWhile_hd_id)
  moreover have "dropWhile is_ws (rev s) = rev s"
    using a by (intro dropWhile_hd_id) (simp add: hd_rev)
  ultimately show ?thesis by (simp add: trim_def)
qed

lemma star_ws_skips:
  "list_all is_ws w \<Longrightarrow> u = [] \<or> \<not> is_ws (hd u) \<Longrightarrow> \<exists>more. star_m ws_m (w @ u) = u # more"
proof (induction w)
  case Nil
  then show ?case
    by (cases u) (simp_all add: ws_m_def star_chr_Nil star_chr_Cons)
next
  case (Cons c w)
  then obtain more where "star_m ws_m (w @ u) = u # more" by auto
  with Cons.prems show ?case by (simp add: ws_m_def star_chr_Cons)
qed

lemma re_codeblock_fenced:
  assumes ne: "t \<noteq> []" and hd: "hd t = LBRACE" and last: "last t = RBRACE"
    and nf: "\<not> has_fence t"
    and w1: "list_all is_ws w1" and w2: "list_all is_ws w2"
    and tag: "tag = [] \<or> tag = js ''json''"
  shows "re_codeblock (fence @ tag @ w1 @ t @ w2 @ fence) = Some (fence @ tag @ w1 @ t @ w2 @ fence, t)"
proof -
  let ?u = "t @ w2 @ fence"
  let ?X = "fence @ tag @ w1 @ ?u"
  let ?pre = "seq_m (lit_m (js ''```'')) (seq_m (opt_m (lit_m (js ''json''))) (star_m ws_m))"
  have hu: "?u = [] \<or> \<not> is_ws (hd ?u)"
    using ne hd by (simp add: not_ws_LBRACE)
  then obtain more where sw: "star_m ws_m (w1 @ ?u) = ?u # more"
    using star_ws_skips[OF w1] by blast
  have "\<exists>more. seq_m (opt_m (lit_m (js ''json''))) (star_m ws_m) (tag @ w1 @ ?u) = ?u # more"
  proof (cases "tag = []")
    case True
    have jj: "js ''json'' = 0x6A # js ''son''"
      by (simp add: js_def)
    have "w1 @ ?u = [] \<or> hd (w1 @ ?u) \<noteq> 0x6A"
      using w1 ne hd by (cases w1) (auto simp: is_ws_def)
    then have "lit_m (js ''json'') (w1 @ ?u) = []"
      unfolding jj by (rule lit_m_hd_neq)
    with True sw show ?thesis
      by (simp add: seq_m_def opt_m_def alt_m_def eps_m_def)
  next
    case False
    with tag have "tag = js ''json''" by simp
    then have "lit_m (js ''json'') (tag @ w1 @ ?u) = [w1 @ ?u]"
      by (simp add: lit_m_append)
    with sw show ?thesis
      by (simp add: seq_m_def opt_m_def alt_m_def eps_m_def)
  qed
  then obtain more' where pre: "?pre ?X = ?u # more'"
    by (auto simp: seq_m_def js_fence lit_m_append)
  have fails: "post_fence (t' @ w2 @ fence) = []" if "t' \<noteq> []" "suffix t' t" for t'
  proof (rule post_fence_fails)
    show "t' \<noteq> []" by (rule that(1))
    from that show "last t' = RBRACE"
      using last by (auto simp: suffix_def)
    from that(2) nf show "\<not> has_fence t'"
      using has_fence_suffix by blast
  qed
  obtain cs where ok: "post_fence (w2 @ fence) = [] # cs"
    using post_fence_ws[OF w2, of "[]"] by auto
  obtain more'' where inner:
    "concat (map (\<lambda>b. map (\<lambda>c. (?u, b, c)) (post_fence b)) (lazy_m any_m (t @ w2 @ fence)))
       = (?u, w2 @ fence, []) # more''"
    using first_fence_after[of t post_fence "w2 @ fence" "[]" cs ?u, OF fails ok] by blast
  have "match_at ?pre (lazy_m any_m) post_fence ?X = Some (?X, t)"
    unfolding match_at_def by (simp add: pre inner)
  then have "regex_match ?pre (lazy_m any_m) post_fence ?X = Some (?X, t)"
    by (subst regex_match.simps) simp
  then show ?thesis
    by (simp add: re_codeblock_def post_fence_def)
qed

lemma trimmed_object_text:
  assumes "JSON_parse (trim j) = Some v" and "startsWith (trim j) LBRACE"
  shows "trim j \<noteq> [] \<and> hd (trim j) = LBRACE \<and> last (trim j) = RBRACE"
proof -
  from assms(2) have ne: "trim j \<noteq> []" and hd: "hd (trim j) = LBRACE"
    by (auto simp: startsWith_def split: list.splits)
  from ne have "\<not> is_ws (last (trim j))"
    by (cases j rule: trim_cases) simp_all
  with assms have "last (trim j) = RBRACE"
    using JSON_object_text_ends_with_brace by blast
  with ne hd show ?thesis by simp
qed

lemma gemini_parse_pure:
  assumes "JSON_parse (trim j) = Some v" and "startsWith (trim j) LBRACE"
  shows "gemini_parse j = Inr v"
proof -
  from assms have "last (trim j) = RBRACE"
    using trimmed_object_text by blast
  with assms(2) have "gemini_json_text j = Inr (trim j)"
    by (rule gemini_json_text_pure)
  with assms(1) show ?thesis
    by (simp add: gemini_parse_def)
qed

text \<open>
  C5, as amended.  Let \<open>j\<close> be a JSON object text (trimmed, it starts with an opening
  brace and \<open>JSON.parse\<close> accepts it) that holds no three backticks in a row.  Wrapped
  in a fenced code block, with the tag \<open>json\<close> or without, and with any white space
  between the fences and \<open>j\<close>, it parses to the same value as \<open>j\<close> alone.
\<close>

theorem fenced_json_roundtrip:
  assumes p: "JSON_parse (trim j) = Some v" and b: "startsWith (trim j) LBRACE"
    and nf: "\<not> has_fence j"
    and tag: "tag = [] \<or> tag = js ''json''"
    and w1: "list_all is_ws w1" and w2: "list_all is_ws w2"
  shows "gemini_parse (fenced tag w1 j w2) = gemini_parse j \<and> gemini_parse j = Inr v"
proof -
  let ?t = "trim j"
  from p b have t: "?t \<noteq> []" "hd ?t = LBRACE" "last ?t = RBRACE"
    using trimmed_object_text by blast+
  obtain l r where j: "j = l @ ?t @ r" and l: "list_all is_ws l" and r: "list_all is_ws r"
    by (rule trim_decompose)
  have nft: "\<not> has_fence ?t"
  proof
    assume "has_fence ?t"
    then have "has_fence (l @ ?t @ r)"
      by (intro has_fence_append_left has_fence_append_right)
    with j nf show False by simp
  qed
  let ?X = "fence @ tag @ (w1 @ l) @ ?t @ (r @ w2) @ fence"
  have X: "fenced tag w1 j w2 = ?X"
    by (subst j) (simp add: fenced_def)
  have re: "re_codeblock ?X = Some (?X, ?t)"
    using t nft tag w1 w2 l r by (intro re_codeblock_fenced) simp_all
  have "trim ?X = ?X"
    by (rule trim_id) (simp_all add: fence_def not_ws_BACKTICK)
  moreover have "\<not> startsWith ?X LBRACE" and "?X \<noteq> []"
    by (simp_all add: fence_def startsWith_def)
  moreover have "cleanup_trailing ?t = ?t"
    using t(1,3) by (rule cleanup_trailing_noop)
  ultimately have "gemini_json_text ?X = Inr ?t"
    using re t(1) by (simp add: gemini_json_text_def extract_json_def trim_idem)
  with p have "gemini_parse ?X = Inr v"
    by (simp add: gemini_parse_def)
  moreover from p b have "gemini_parse j = Inr v"
    by (rule gemini_parse_pure)
  ultimately show ?thesis by (simp add: X)
qed

theorem fenced_json_roundtrip_witness:
  "gemini_parse (fenced (js ''json'') [NL] sample_object [NL]) = gemini_parse sample_object
   \<and> gemini_parse (fenced [] [NL] sample_object [NL]) = gemini_parse sample_object
   \<and> gemini_parse sample_object =
       Inr (JObj [(js ''primary'', JArr []), (js ''note'', JStr (js ''x''))])"
proof -
  have p: "JSON_parse (trim sample_object) =
      Some (JObj [(js ''primary'', JArr []), (js ''note'', JStr (js ''x''))])"
    by code_simp
  have b: "startsWith (trim sample_object) LBRACE"
    by code_simp
  have nf: "\<not> has_fence sample_object"
    by code_simp
  have w: "list_all is_ws [NL]"
    by (simp add: is_ws_def)
  show ?thesis
    using fenced_json_roundtrip [OF p b nf _ w w, of "js ''json''"]
      fenced_json_roundtrip [OF p b nf _ w w, of "[]"]
    by simp
qed

text \<open>
  C5 as stated fails: the lazy group of the code-block pattern ends at the first three
  backticks, also when they stand inside a string of the JSON text.
\<close>

theorem fenced_backticks_not_recovered:
  "gemini_parse sample_backticks = Inr (JObj [(js ''a'', JStr (js ''```''))])
   \<and> gemini_parse (fenced (js ''json'') [NL] sample_backticks [NL]) = Inl JsonParseError"
  by code_simp

section \<open>Properties of the newline pattern\<close>

declare replace_all.simps [simp del]

lemma is_ws_NL: "is_ws NL"
  by (simp add: is_ws_def)

lemma has_nl3_Cons: "has_nl3 (c # t) \<longleftrightarrow> (c = NL \<and> 2 \<le> lead_nl t) \<or> has_nl3 t"
proof (cases t)
  case Nil
  then show ?thesis by (simp add: lead_nl_def)
next
  case (Cons a t')
  then show ?thesis by (cases t') (auto simp: lead_nl_def)
qed

lemma has_nl3_iff: "has_nl3 s \<longleftrightarrow> (\<exists>u v. s = u @ [NL, NL, NL] @ v)"
proof
  show "has_nl3 s \<Longrightarrow> \<exists>u v. s = u @ [NL, NL, NL] @ v"
  proof (induction s rule: has_nl3.induct)
    case (1 a b c r)
    show ?case
    proof (cases "a = NL \<and> b = NL \<and> c = NL")
      case True
      then have "a # b # c # r = [] @ [NL, NL, NL] @ r" by simp
      then show ?thesis by blast
    next
      case False
      with 1 obtain u v where "b # c # r = u @ [NL, NL, NL] @ v" by auto
      then have "a # b # c # r = (a # u) @ [NL, NL, NL] @ v" by simp
      then show ?thesis by blast
    qed
  qed simp_all
next
  assume "\<exists>u v. s = u @ [NL, NL, NL] @ v"
  then obtain u v where s: "s = u @ [NL, NL, NL] @ v" by blast
  show "has_nl3 s" unfolding s
  proof (induction u)
    case Nil
    show ?case by simp
  next
    case (Cons x u)
    then show ?case by (simp add: has_nl3_Cons)
  qed
qed

lemma nl_ws_Nil: "nl_ws_m [] = []"
  by (simp add: nl_ws_m_def seq_m_def chr_m_def)

lemma nl_ws_Cons: "nl_ws_m (c # cs) = (if c = NL then star_m ws_m cs else [])"
  by (simp add: nl_ws_m_def seq_m_def chr_m_def)

lemma nl_ws_not_NL: "s = [] \<or> hd s \<noteq> NL \<Longrightarrow> nl_ws_m s = []"
  by (cases s) (auto simp: nl_ws_Nil nl_ws_Cons)

lemma star_m_last: "\<exists>pre. star_m m s = pre @ [s]"
  by (subst star_m.simps) simp

lemma star_m_nonempty: "star_m m s \<noteq> []"
  using star_m_last[of m s] by auto

lemma star_m_stop: "m s = [] \<Longrightarrow> star_m m s = [s]"
  by (subst star_m.simps) simp

lemma star_ws_self: "cs \<in> set (star_m ws_m cs)"
  using star_m_last[of ws_m cs] by auto

lemma star_ws_hd: "\<exists>more. star_m ws_m cs = dropWhile is_ws cs # more"
proof -
  have "list_all is_ws (takeWhile is_ws cs)"
    by (auto simp: list_all_iff dest: set_takeWhileD)
  moreover have "dropWhile is_ws cs = [] \<or> \<not> is_ws (hd (dropWhile is_ws cs))"
    using hd_dropWhile by blast
  ultimately have "\<exists>more. star_m ws_m (takeWhile is_ws cs @ dropWhile is_ws cs)
      = dropWhile is_ws cs # more"
    by (rule star_ws_skips)
  then show ?thesis by simp
qed

lemma star_ws_elems:
  "e \<in> set (star_m ws_m cs) \<Longrightarrow> dropWhile is_ws e = dropWhile is_ws cs \<and> length e \<le> length cs"
proof (induction cs)
  case Nil
  then show ?case by (simp add: ws_m_def star_chr_Nil)
next
  case (Cons c cs)
  then show ?case
    by (auto simp: ws_m_def star_chr_Cons split: if_splits)
qed

lemma seq_m_nonempty: "seq_m a b s \<noteq> [] \<longleftrightarrow> (\<exists>r\<in>set (a s). b r \<noteq> [])"
  by (auto simp: seq_m_def)

lemma hd_concat_map_first:
  "f x \<noteq> [] \<Longrightarrow> hd (concat (map f (x # xs))) = hd (f x)"
  by simp

lemma hd_concat_map_some:
  "concat (map f xs) \<noteq> [] \<Longrightarrow> \<exists>e\<in>set xs. f e \<noteq> [] \<and> hd (concat (map f xs)) = hd (f e)"
proof (induction xs)
  case Nil
  then show ?case by simp
next
  case (Cons x xs)
  then show ?case by (cases "f x = []") auto
qed

lemma star_nl_ws_rest: "d = dropWhile is_ws cs \<Longrightarrow> star_m nl_ws_m d = [d]"
proof -
  assume d: "d = dropWhile is_ws cs"
  have "d = [] \<or> \<not> is_ws (hd d)"
    unfolding d using hd_dropWhile by blast
  then have "d = [] \<or> hd d \<noteq> NL"
    using is_ws_NL by auto
  then have "nl_ws_m d = []" by (rule nl_ws_not_NL)
  then show ?thesis by (rule star_m_stop)
qed

lemma greedy_one:
  assumes "seq_m nl_ws_m (star_m nl_ws_m) t \<noteq> []"
  shows "hd (seq_m nl_ws_m (star_m nl_ws_m) t) = dropWhile is_ws t"
proof -
  from assms have "nl_ws_m t \<noteq> []" by (auto simp: seq_m_def)
  then obtain cs where t: "t = NL # cs"
    by (cases t) (auto simp: nl_ws_Nil nl_ws_Cons split: if_splits)
  obtain more where m: "star_m ws_m cs = dropWhile is_ws cs # more"
    using star_ws_hd by blast
  have "star_m nl_ws_m (dropWhile is_ws cs) = [dropWhile is_ws cs]"
    by (rule star_nl_ws_rest) simp
  then have "hd (seq_m nl_ws_m (star_m nl_ws_m) t) = dropWhile is_ws cs"
    by (simp add: seq_m_def t nl_ws_Cons m)
  then show ?thesis by (simp add: t is_ws_NL)
qed

lemma greedy_step:
  assumes M: "\<And>t. M t \<noteq> [] \<Longrightarrow> hd (M t) = dropWhile is_ws t"
    and ne: "seq_m nl_ws_m M t \<noteq> []"
  shows "hd (seq_m nl_ws_m M t) = dropWhile is_ws t"
proof -
  from ne have "nl_ws_m t \<noteq> []" by (auto simp: seq_m_def)
  then obtain cs where t: "t = NL # cs"
    by (cases t) (auto simp: nl_ws_Nil nl_ws_Cons split: if_splits)
  from ne obtain e where e: "e \<in> set (nl_ws_m t)" "M e \<noteq> []"
    and h: "hd (seq_m nl_ws_m M t) = hd (M e)"
    unfolding seq_m_def using hd_concat_map_some[of M "nl_ws_m t"] by blast
  from e(1) have "dropWhile is_ws e = dropWhile is_ws cs"
    using star_ws_elems by (simp add: t nl_ws_Cons)
  with h M[OF e(2)] show ?thesis by (simp add: t is_ws_NL)
qed

lemma nl_runs_greedy:
  "nl_runs_m t \<noteq> [] \<Longrightarrow> hd (nl_runs_m t) = dropWhile is_ws t"
  unfolding nl_runs_m_def
  by (intro greedy_step greedy_one)

lemma seq_star_empty_iff: "seq_m a (star_m m) r = [] \<longleftrightarrow> a r = []"
  by (auto simp: seq_m_def star_m_nonempty)

lemma nl_runs_nonempty_iff:
  "nl_runs_m s \<noteq> [] \<longleftrightarrow> seq_m nl_ws_m (seq_m nl_ws_m nl_ws_m) s \<noteq> []"
  by (simp add: nl_runs_m_def seq_m_nonempty seq_star_empty_iff)

lemma nl_ws_self: "cs \<in> set (nl_ws_m (NL # cs))"
  by (simp add: nl_ws_Cons star_ws_self)

lemma two_after_NL: "nl_ws_m cs \<noteq> [] \<Longrightarrow> seq_m nl_ws_m nl_ws_m (NL # cs) \<noteq> []"
  unfolding seq_m_nonempty using nl_ws_self by blast

lemma three_after_NL: "seq_m nl_ws_m nl_ws_m cs \<noteq> [] \<Longrightarrow> nl_runs_m (NL # cs) \<noteq> []"
  unfolding nl_runs_nonempty_iff seq_m_nonempty[of nl_ws_m "seq_m nl_ws_m nl_ws_m"]
  using nl_ws_self by blast

lemma three_implies_two: "nl_runs_m s \<noteq> [] \<Longrightarrow> seq_m nl_ws_m nl_ws_m s \<noteq> []"
proof -
  assume "nl_runs_m s \<noteq> []"
  then obtain r1 r2 where r1: "r1 \<in> set (nl_ws_m s)" and r2: "r2 \<in> set (nl_ws_m r1)"
    unfolding nl_runs_nonempty_iff by (auto simp: seq_m_nonempty)
  from r2 have "nl_ws_m r1 \<noteq> []" by auto
  with r1 show ?thesis unfolding seq_m_nonempty by blast
qed

lemma two_implies_one: "seq_m nl_ws_m nl_ws_m s \<noteq> [] \<Longrightarrow> nl_ws_m s \<noteq> []"
  by (auto simp: seq_m_nonempty)

lemma nl_ws_nonempty_iff: "nl_ws_m s \<noteq> [] \<longleftrightarrow> (\<exists>cs. s = NL # cs)"
  by (cases s) (auto simp: nl_ws_Nil nl_ws_Cons star_m_nonempty)

lemma lead_nl_Cons: "lead_nl (c # t) = (if c = NL then Suc (lead_nl t) else 0)"
  by (simp add: lead_nl_def)

lemma lead_nl_Nil: "lead_nl [] = 0"
  by (simp add: lead_nl_def)

lemma replace_nl_runs_Nil: "replace_all nl_runs_m rep [] = []"
proof -
  have "nl_runs_m [] = []"
    using three_implies_two[of "[]"] two_implies_one[of "[]"] nl_ws_Nil by blast
  then show ?thesis by (subst replace_all.simps) simp
qed

lemma replace_nl_runs_copy:
  "nl_runs_m (c # cs) = [] \<Longrightarrow>
     replace_all nl_runs_m rep (c # cs) = c # replace_all nl_runs_m rep cs"
  by (subst replace_all.simps) simp

lemma replace_nl_runs_match:
  assumes "nl_runs_m s \<noteq> []"
  shows "replace_all nl_runs_m rep s = rep @ replace_all nl_runs_m rep (dropWhile is_ws s)"
proof -
  from assms obtain r more where r: "nl_runs_m s = r # more"
    by (cases "nl_runs_m s") auto
  with assms have rd: "r = dropWhile is_ws s"
    using nl_runs_greedy[of s] by simp
  from assms obtain cs where s: "s = NL # cs"
    using three_implies_two two_implies_one nl_ws_nonempty_iff by blast
  have "length (dropWhile is_ws s) \<le> length cs"
    unfolding s by (simp add: is_ws_NL length_dropWhile_le)
  then have "length r < length s" by (simp add: rd s)
  then show ?thesis
    by (subst replace_all.simps) (simp add: r rd)
qed

lemma replace_nl_runs_bound:
  "\<not> has_nl3 (replace_all nl_runs_m [NL, NL] s)
   \<and> lead_nl (replace_all nl_runs_m [NL, NL] s) \<le> nl_bound s"
proof (induction s rule: length_induct)
  case (1 s)
  note IH = "1.IH"[rule_format]
  show ?case
  proof (cases "nl_runs_m s = []")
    case False
    let ?r = "dropWhile is_ws s"
    from False obtain cs where s: "s = NL # cs"
      using three_implies_two two_implies_one nl_ws_nonempty_iff by blast
    have "length ?r \<le> length cs"
      unfolding s by (simp add: is_ws_NL length_dropWhile_le)
    then have "length ?r < length s" by (simp add: s)
    then have ih: "\<not> has_nl3 (replace_all nl_runs_m [NL, NL] ?r)"
      "lead_nl (replace_all nl_runs_m [NL, NL] ?r) \<le> nl_bound ?r"
      using IH by blast+
    have "?r = [] \<or> \<not> is_ws (hd ?r)" using hd_dropWhile by blast
    then have "?r = [] \<or> hd ?r \<noteq> NL" using is_ws_NL by auto
    then have "nl_ws_m ?r = []" by (rule nl_ws_not_NL)
    then have "nl_bound ?r = 0"
      using two_implies_one[of ?r] by (auto simp: nl_bound_def)
    with ih have l0: "lead_nl (replace_all nl_runs_m [NL, NL] ?r) = 0" by simp
    have eq: "replace_all nl_runs_m [NL, NL] s = [NL, NL] @ replace_all nl_runs_m [NL, NL] ?r"
      using False by (rule replace_nl_runs_match)
    have "nl_bound s = 2"
      using three_implies_two[OF False] by (simp add: nl_bound_def)
    then show ?thesis
      unfolding eq using ih(1) l0 by (simp add: has_nl3_Cons lead_nl_Cons)
  next
    case True
    show ?thesis
    proof (cases s)
      case Nil
      then show ?thesis by (simp add: replace_nl_runs_Nil lead_nl_Nil)
    next
      case (Cons c cs)
      have ih: "\<not> has_nl3 (replace_all nl_runs_m [NL, NL] cs)"
        "lead_nl (replace_all nl_runs_m [NL, NL] cs) \<le> nl_bound cs"
        using IH[of cs] by (simp_all add: Cons)
      have eq: "replace_all nl_runs_m [NL, NL] s = c # replace_all nl_runs_m [NL, NL] cs"
        using True unfolding Cons by (rule replace_nl_runs_copy)
      show ?thesis
      proof (cases "c = NL")
        case False
        with ih(1) show ?thesis
          unfolding eq by (simp add: has_nl3_Cons lead_nl_Cons)
      next
        case nl: True
        have no2: "seq_m nl_ws_m nl_ws_m cs = []"
          using True three_after_NL[of cs] unfolding Cons nl by blast
        have b: "Suc (nl_bound cs) \<le> nl_bound s \<and> nl_bound cs \<le> 1"
        proof (cases "nl_ws_m cs = []")
          case True
          with no2 have "nl_bound cs = 0" by (simp add: nl_bound_def)
          moreover have "nl_ws_m s \<noteq> []"
            unfolding Cons nl by (simp add: nl_ws_nonempty_iff)
          then have "1 \<le> nl_bound s" by (simp add: nl_bound_def)
          ultimately show ?thesis by simp
        next
          case False
          with no2 have "nl_bound cs = 1" by (simp add: nl_bound_def)
          moreover have "seq_m nl_ws_m nl_ws_m s \<noteq> []"
            unfolding Cons nl using False by (rule two_after_NL)
          then have "nl_bound s = 2" by (simp add: nl_bound_def)
          ultimately show ?thesis by simp
        qed
        with ih show ?thesis
          unfolding eq by (simp add: has_nl3_Cons lead_nl_Cons nl)
      qed
    qed
  qed
qed

text \<open>
  C9.  For every element, the text that extractCleanText returns holds no three newlines
  in a row.  A match of the pattern runs from a newline to the end of the white space
  around it, so two newlines stand where it was and no white space follows them.
\<close>

theorem clean_text_no_three_newlines:
  "\<not> (\<exists>u v. extractCleanText element = u @ [NL, NL, NL] @ v)"
  unfolding extractCleanText_def has_nl3_iff[symmetric]
  using replace_nl_runs_bound by blast

theorem clean_text_no_three_newlines_witness:
  "extractCleanText sample_blocks = [0x61, NL, NL, 0x62, NL, NL, 0x63]
   \<and> \<not> (\<exists>u v. extractCleanText sample_blocks = u @ [NL, NL, NL] @ v)"
proof -
  have "extractCleanText sample_blocks = [0x61, NL, NL, 0x62, NL, NL, 0x63]"
    by code_simp
  then show ?thesis
    using clean_text_no_three_newlines [of sample_blocks] by simp
qed

section \<open>Properties of the extraction\<close>

lemma calculateScore_noise: "matches_noise e \<Longrightarrow> calculateScore e = - 100"
  by (simp add: calculateScore_def)

lemma select_loop_Inr:
  assumes "select_loop (be0, bs0) es = Inr (be, bs)"
    and "- 1 \<le> bs0"
  shows "- 1 \<le> bs \<and> (be = be0 \<or> (\<exists>e. be = Some e \<and> Some e \<in> set es \<and> \<not> matches_noise e))"
  using assms
proof (induction es arbitrary: be0 bs0)
  case Nil
  then show ?case by simp
next
  case (Cons x es)
  from Cons.prems(1) obtain element where x: "x = Some element"
    by (cases x) auto
  let ?score = "calculateScore element"
  show ?case
  proof (cases "?score > bs0")
    case True
    with Cons.prems have nn: "\<not> matches_noise element"
      using calculateScore_noise[of element] by auto
    from True Cons.prems(1) have "select_loop (Some element, ?score) es = Inr (be, bs)"
      by (simp add: x Let_def)
    moreover from True Cons.prems(2) have "- 1 \<le> ?score" by simp
    ultimately have "- 1 \<le> bs \<and> (be = Some element
        \<or> (\<exists>e. be = Some e \<and> Some e \<in> set es \<and> \<not> matches_noise e))"
      by (rule Cons.IH)
    with nn show ?thesis by (auto simp: x)
  next
    case False
    with Cons.prems(1) have "select_loop (be0, bs0) es = Inr (be, bs)"
      by (simp add: x Let_def)
    then have "- 1 \<le> bs \<and> (be = be0
        \<or> (\<exists>e. be = Some e \<and> Some e \<in> set es \<and> \<not> matches_noise e))"
      using Cons.prems(2) by (rule Cons.IH)
    then show ?thesis by auto
  qed
qed

lemma select_loop_Inl: "select_loop acc es = Inl e \<Longrightarrow> e = NullElementError"
proof (induction acc es rule: select_loop.induct)
  case (3 bestElement bestScore element es)
  then show ?case by (simp add: Let_def split: if_splits)
qed simp_all

lemma document_body_tag:
  "document_body doc = Some b \<Longrightarrow> tag_of b = js ''body'' \<or> tag_of b = js ''frameset''"
proof -
  assume a: "document_body doc = Some b"
  then obtain cs where "find (\<lambda>c. is_element c \<and> (tag_of c = js ''body'' \<or> tag_of c = js ''frameset'')) cs = Some b"
    by (auto simp: document_body_def split: option.splits if_splits)
  then show ?thesis
    by (auto simp: find_Some_iff)
qed

lemma candidate_not_body:
  "is_candidate e \<Longrightarrow> \<not> (tag_of e = js ''body'' \<or> tag_of e = js ''frameset'')"
  by (auto simp: is_candidate_def js_def)

text \<open>
  C8.  Let some scored element not match the noise vocabulary and hold a \<open>p\<close> with more
  than 25 code units that are not white space.  Then the element that the selection
  returns is not a scored element that matches the noise vocabulary; it is a scored
  element or the body the selection starts from.  An element that matches scores -100
  and never exceeds the best score, which starts at -1.
\<close>

theorem best_container_not_noise:
  assumes "\<exists>c. Some c \<in> set (elementsToScore doc) \<and> \<not> matches_noise c
             \<and> (\<exists>p\<in>set (descendants c). tag_of p = js ''p''
                    \<and> 25 < length (filter (\<lambda>x. \<not> is_ws x) (textContent p)))"
    and "best_element doc = Inr (Some r)"
  shows "(Some r \<in> set (elementsToScore doc) \<longrightarrow> \<not> matches_noise r)
         \<and> (Some r \<in> set (elementsToScore doc) \<or> Some r = document_body doc)"
proof -
  from assms(2) obtain bs where
    "select_loop (document_body doc, - 1) (elementsToScore doc) = Inr (Some r, bs)"
    by (auto simp: best_element_def split: sum.splits)
  then have "Some r = document_body doc
      \<or> (\<exists>e. Some r = Some e \<and> Some e \<in> set (elementsToScore doc) \<and> \<not> matches_noise e)"
    using select_loop_Inr[of "document_body doc" "- 1" "elementsToScore doc" "Some r" bs]
    by auto
  then consider (chosen) "Some r \<in> set (elementsToScore doc)" "\<not> matches_noise r"
    | (default) "Some r = document_body doc"
    by auto
  then show ?thesis
  proof cases
    case chosen
    then show ?thesis by simp
  next
    case default
    have "\<not> matches_noise r" if member: "Some r \<in> set (elementsToScore doc)"
    proof (cases "candidates doc = []")
      case True
      then have "set (elementsToScore doc) = {Some r}"
        by (simp add: elementsToScore_def default)
      with assms(1) show ?thesis by auto
    next
      case False
      with member have "r \<in> set (candidates doc)"
        by (auto simp: elementsToScore_def)
      then have "is_candidate r" by (simp add: candidates_def)
      moreover have "tag_of r = js ''body'' \<or> tag_of r = js ''frameset''"
        using default by (intro document_body_tag[of doc]) simp
      ultimately show ?thesis using candidate_not_body by blast
    qed
    with default show ?thesis by simp
  qed
qed

lemma sample_doc_scored:
  "elementsToScore (strip_noise sample_doc) = [Some sample_related, Some sample_article]"
  by code_simp

theorem best_container_not_noise_witness:
  "best_element (strip_noise sample_doc) = Inr (Some sample_article)
   \<and> matches_noise sample_related
   \<and> \<not> matches_noise sample_article
   \<and> Some sample_article \<in> set (elementsToScore (strip_noise sample_doc))"
proof -
  have b: "best_element (strip_noise sample_doc) = Inr (Some sample_article)"
    by code_simp
  have n: "matches_noise sample_related" "\<not> matches_noise sample_article"
    by code_simp+
  have m: "Some sample_article \<in> set (elementsToScore (strip_noise sample_doc))"
    by (simp add: sample_doc_scored)
  have p: "\<exists>p\<in>set (descendants sample_article). tag_of p = js ''p''
             \<and> 25 < length (filter (\<lambda>x. \<not> is_ws x) (textContent p))"
    by code_simp
  have "\<exists>c. Some c \<in> set (elementsToScore (strip_noise sample_doc)) \<and> \<not> matches_noise c
             \<and> (\<exists>p\<in>set (descendants c). tag_of p = js ''p''
                    \<and> 25 < length (filter (\<lambda>x. \<not> is_ws x) (textContent p)))"
    using m n(2) p by blast
  from best_container_not_noise [OF this b] b n m show ?thesis by simp
qed

text \<open>
  The rounding.  \<open>round64 x\<close> is an integer of 53 bits times a power of two and lies
  within half a unit of that power from \<open>x\<close>, with an even integer on a tie; it keeps
  the sign, and it does not take a value up to 1 above 1.
\<close>

lemma nearest_even_bounds: "of_int (nearest_even y) - 1 / 2 \<le> y \<and> y \<le> of_int (nearest_even y) + 1 / 2"
proof -
  define f where "f = \<lfloor>y\<rfloor>"
  have "of_int f \<le> y" "y < of_int f + 1"
    unfolding f_def by linarith+
  then show ?thesis
    unfolding nearest_even_def Let_def f_def[symmetric] by auto
qed

lemma nearest_even_mono_int: "y \<le> of_int m \<Longrightarrow> nearest_even y \<le> m"
proof -
  assume a: "y \<le> of_int m"
  then have f: "\<lfloor>y\<rfloor> \<le> m" by (simp add: floor_le_iff)
  show ?thesis
  proof (cases "\<lfloor>y\<rfloor> = m")
    case True
    have "of_int \<lfloor>y\<rfloor> \<le> y" by linarith
    with a True have "y - of_int \<lfloor>y\<rfloor> = 0" by simp
    with True show ?thesis by (simp add: nearest_even_def Let_def)
  next
    case False
    with f have "\<lfloor>y\<rfloor> + 1 \<le> m" by simp
    then show ?thesis by (auto simp: nearest_even_def Let_def)
  qed
qed

lemma nearest_even_int_mono: "of_int m \<le> y \<Longrightarrow> m \<le> nearest_even y"
proof -
  assume "of_int m \<le> y"
  then have "m \<le> \<lfloor>y\<rfloor>" by (simp add: le_floor_iff)
  then show ?thesis by (auto simp: nearest_even_def Let_def)
qed

lemma round64_nonneg: "0 \<le> x \<Longrightarrow> 0 \<le> round64 x"
proof (cases "x = 0")
  case True
  then show ?thesis by (simp add: round64_def)
next
  case False
  assume "0 \<le> x"
  let ?e = "binade \<bar>x\<bar> - 52"
  have p: "(0::rat) < 2 powi ?e" by (simp add: zero_less_power_int)
  with \<open>0 \<le> x\<close> have "of_int 0 \<le> x / 2 powi ?e" by simp
  then have "0 \<le> nearest_even (x / 2 powi ?e)" by (rule nearest_even_int_mono)
  with p False show ?thesis
    by (simp add: round64_def Let_def)
qed

lemma binade_le_0:
  assumes "0 < x" and "x \<le> 1"
  shows "binade x \<le> 0"
proof -
  obtain p q where pq: "quotient_of x = (p, q)" by (cases "quotient_of x")
  then have q: "0 < q" and x: "x = of_int p / of_int q"
    by (simp_all add: quotient_of_denom_pos quotient_of_div)
  from assms(2) q have "p \<le> q"
    unfolding x by (simp add: divide_le_eq_1_pos)
  then have "bitlen p \<le> bitlen q"
    by (simp add: bitlen_def floorlog_mono)
  then show ?thesis
    by (simp add: binade_def pq Let_def)
qed

lemma round64_le_1:
  assumes "x \<le> 1"
  shows "round64 x \<le> 1"
proof (cases "0 < x")
  case False
  then have x: "x \<le> 0" by simp
  show ?thesis
  proof (cases "x = 0")
    case True
    then show ?thesis by (simp add: round64_def)
  next
    case nz: False
    let ?e = "binade \<bar>x\<bar> - 52"
    have p: "(0::rat) < 2 powi ?e" by (simp add: zero_less_power_int)
    with x have "x / 2 powi ?e \<le> of_int 0" by (simp add: divide_nonpos_pos)
    then have "nearest_even (x / 2 powi ?e) \<le> 0" by (rule nearest_even_mono_int)
    then have "of_int (nearest_even (x / 2 powi ?e)) * 2 powi ?e \<le> (0::rat)"
      using p by (simp add: mult_le_0_iff)
    with nz show ?thesis by (simp add: round64_def Let_def)
  qed
next
  case True
  then have ax: "\<bar>x\<bar> = x" and nz: "x \<noteq> 0" by simp_all
  let ?e = "binade x - 52"
  from True assms have "binade x \<le> 0" by (rule binade_le_0)
  then have e: "?e \<le> 0" by simp
  define n where "n = nat (- ?e)"
  have pe: "(2::rat) powi ?e = 1 / 2 ^ n"
    using e by (simp add: n_def power_int_def field_simps)
  have "x / 2 powi ?e = x * 2 ^ n" by (simp add: pe)
  also have "\<dots> \<le> 1 * 2 ^ n" using assms by (intro mult_right_mono) simp_all
  also have "\<dots> = of_int (2 ^ n)" by simp
  finally have "nearest_even (x / 2 powi ?e) \<le> 2 ^ n" by (rule nearest_even_mono_int)
  then have "(of_int (nearest_even (x / 2 powi ?e)) :: rat) \<le> of_int (2 ^ n)"
    by (simp only: of_int_le_iff)
  then have "of_int (nearest_even (x / 2 powi ?e)) * (1 / 2 ^ n) \<le> (of_int (2 ^ n) :: rat) * (1 / 2 ^ n)"
    by (intro mult_right_mono) simp_all
  then have "of_int (nearest_even (x / 2 powi ?e)) * 2 powi ?e \<le> (1::rat)"
    by (simp add: pe)
  with nz show ?thesis by (simp add: round64_def Let_def ax)
qed

lemma bitlen_powi_bounds:
  assumes "0 < p"
  shows "(2::rat) powi (bitlen p - 1) \<le> of_int p" and "of_int p < (2::rat) powi (bitlen p)"
proof -
  from assms have b: "1 \<le> bitlen p" by (auto simp: bitlen_alt_def)
  from bitlen_bounds[OF assms] have lo: "2 ^ nat (bitlen p - 1) \<le> p" and hi: "p < 2 ^ nat (bitlen p)"
    by simp_all
  from lo have "(of_int (2 ^ nat (bitlen p - 1)) :: rat) \<le> of_int p"
    by (simp only: of_int_le_iff)
  with b show "(2::rat) powi (bitlen p - 1) \<le> of_int p"
    by (simp add: power_int_def)
  from hi have "(of_int p :: rat) < of_int (2 ^ nat (bitlen p))"
    by (simp only: of_int_less_iff)
  with b show "of_int p < (2::rat) powi (bitlen p)"
    by (simp add: power_int_def)
qed

lemma binade_bounds:
  assumes "0 < x"
  shows "2 powi (binade x) \<le> x \<and> x < 2 powi (binade x + 1)"
proof -
  obtain p q where pq: "quotient_of x = (p, q)" by (cases "quotient_of x")
  then have q: "0 < q" and x: "x = of_int p / of_int q"
    by (simp_all add: quotient_of_denom_pos quotient_of_div)
  from assms q have p: "0 < p"
    unfolding x by (simp add: zero_less_divide_iff)
  define a where "a = bitlen p"
  define b where "b = bitlen q"
  note pb = bitlen_powi_bounds[OF p, folded a_def]
  note qb = bitlen_powi_bounds[OF q, folded b_def]
  have qpos: "(0::rat) < of_int q" using q by simp
  have "x < 2 powi a / 2 powi (b - 1)"
    unfolding x using pb(2) qb(1) qpos
    by (intro frac_less) (simp_all add: zero_less_power_int less_imp_le p)
  also have "\<dots> = 2 powi (a - (b - 1))"
    by (rule power_int_diff[symmetric]) simp
  also have "a - (b - 1) = a - b + 1"
    by simp
  finally have hi: "x < 2 powi (a - b + 1)" .
  have "a - b - 1 = a - 1 - b"
    by simp
  also have "(2::rat) powi (a - 1 - b) = 2 powi (a - 1) / 2 powi b"
    by (rule power_int_diff) simp
  also have "\<dots> \<le> x"
    unfolding x using pb(1) qb(2) qpos
    by (intro frac_le) (simp_all add: zero_less_power_int less_imp_le p)
  finally have lo: "2 powi (a - b - 1) \<le> x" .
  show ?thesis
    using hi lo by (auto simp: binade_def pq Let_def a_def[symmetric] b_def[symmetric] not_le)
qed

lemma round64_nearest:
  assumes "x \<noteq> 0"
  defines "e \<equiv> binade \<bar>x\<bar> - 52"
  defines "m \<equiv> nearest_even (x / 2 powi e)"
  shows "round64 x = of_int m * 2 powi e"
    and "2 ^ 52 \<le> \<bar>m\<bar> \<and> \<bar>m\<bar> \<le> 2 ^ 53"
    and "\<bar>x - round64 x\<bar> \<le> 2 powi e / 2"
    and "even m \<or> \<bar>x - round64 x\<bar> < 2 powi e / 2"
proof -
  show r: "round64 x = of_int m * 2 powi e"
    using assms(1) by (simp add: round64_def Let_def e_def m_def)
  have pe: "(0::rat) < 2 powi e" by (simp add: zero_less_power_int)
  define y where "y = x / 2 powi e"
  have xy: "x = y * 2 powi e" using pe by (simp add: y_def)
  from assms(1) have "0 < \<bar>x\<bar>" by simp
  from binade_bounds[OF this] have lo: "2 powi (e + 52) \<le> \<bar>x\<bar>" and hi: "\<bar>x\<bar> < 2 powi (e + 53)"
    by (simp_all add: e_def add.commute)
  have ay: "\<bar>y\<bar> = \<bar>x\<bar> / 2 powi e" using pe by (simp add: y_def abs_divide)
  have ylo: "2 ^ 52 \<le> \<bar>y\<bar>"
    using lo pe by (simp add: ay power_int_add le_divide_eq mult.commute)
  have yhi: "\<bar>y\<bar> < 2 ^ 53"
    using hi pe by (simp add: ay power_int_add divide_less_eq mult.commute)
  note nb = nearest_even_bounds[of y, folded m_def[unfolded y_def[symmetric]]]
  show "2 ^ 52 \<le> \<bar>m\<bar> \<and> \<bar>m\<bar> \<le> 2 ^ 53"
  proof (cases "0 \<le> y")
    case True
    with ylo yhi have "of_int (2 ^ 52) \<le> y" "y \<le> of_int (2 ^ 53)" by simp_all
    then have "2 ^ 52 \<le> m" "m \<le> 2 ^ 53"
      unfolding m_def y_def[symmetric]
      by (simp_all only: nearest_even_int_mono nearest_even_mono_int)
    then show ?thesis by simp
  next
    case False
    with ylo yhi have "y \<le> of_int (- (2 ^ 52))" "of_int (- (2 ^ 53)) \<le> y" by simp_all
    then have "m \<le> - (2 ^ 52)" "- (2 ^ 53) \<le> m"
      unfolding m_def y_def[symmetric]
      by (simp_all only: nearest_even_int_mono nearest_even_mono_int)
    then show ?thesis by simp
  qed
  have d: "x - round64 x = (y - of_int m) * 2 powi e"
    unfolding r by (subst xy) (simp add: algebra_simps)
  have "\<bar>y - of_int m\<bar> \<le> 1 / 2" using nb by linarith
  then have "\<bar>y - of_int m\<bar> * 2 powi e \<le> 1 / 2 * 2 powi e"
    using pe by (intro mult_right_mono) simp_all
  then show "\<bar>x - round64 x\<bar> \<le> 2 powi e / 2"
    using pe by (simp add: d abs_mult)
  show "even m \<or> \<bar>x - round64 x\<bar> < 2 powi e / 2"
  proof (cases "even m")
    case True
    then show ?thesis by simp
  next
    case False
    define f where "f = \<lfloor>y\<rfloor>"
    have fb: "of_int f \<le> y" "y < of_int f + 1"
      unfolding f_def by linarith+
    have mdef: "m = (if y - of_int f < 1 / 2 then f else if 1 / 2 < y - of_int f then f + 1
        else if even f then f else f + 1)"
      unfolding m_def y_def[symmetric] nearest_even_def Let_def f_def by simp
    have "\<bar>y - of_int m\<bar> < 1 / 2"
      using False fb unfolding mdef by (auto split: if_splits)
    then have "\<bar>y - of_int m\<bar> * 2 powi e < 1 / 2 * 2 powi e"
      using pe by (intro mult_strict_right_mono) simp_all
    then show ?thesis
      using pe by (simp add: d abs_mult)
  qed
qed

lemma round64_samples:
  "round64 (35 / 100) = 3152519739159347 / 9007199254740992"
  "round64 (790 * round64 (1 - round64 (29 / 79))) = 8796093022208001 / 17592186044416"
  "round64 (20 * round64 (1 - round64 (2 / 3))) = 1876499844737707 / 281474976710656"
  by code_simp+

text \<open>
  More on the selection.  An element that does not match the noise vocabulary and whose
  links hold no more text than the element (anchors are not nested) scores 0 or more.
  Where some scored element scores above -1, the selection returns a scored element
  that does not match the noise vocabulary and scores at least as much.
\<close>

lemma calculateScore_nonneg:
  assumes "\<not> matches_noise e" and "link_text_length e \<le> length (textContent e)"
  shows "0 \<le> calculateScore e"
proof -
  let ?total = "if textContent e = [] then 1 else length (textContent e)"
  let ?density = "round64 (of_nat (link_text_length e) / of_nat ?total)"
  have "link_text_length e \<le> ?total" using assms(2) by auto
  moreover have "0 < ?total" by simp
  ultimately have "(of_nat (link_text_length e) / of_nat ?total :: rat) \<le> 1"
    by (metis divide_le_eq_1_pos of_nat_0_less_iff of_nat_le_iff)
  then have d: "?density \<le> 1"
    by (rule round64_le_1)
  have "\<exists>S::nat. calculateScore e =
      (if ?density > round64 (35 / 100) then round64 (of_nat S * round64 (1 - ?density))
       else of_nat S)"
    unfolding calculateScore_def Let_def link_text_length_def
    by (simp only: assms(1) if_False) (intro exI, rule refl)
  then obtain S :: nat where
    "calculateScore e =
       (if ?density > round64 (35 / 100) then round64 (of_nat S * round64 (1 - ?density))
        else of_nat S)"
    by blast
  moreover have "0 \<le> round64 (of_nat S * round64 (1 - ?density))"
  proof (rule round64_nonneg)
    from d have "0 \<le> round64 (1 - ?density)"
      by (intro round64_nonneg) simp
    then show "0 \<le> of_nat S * round64 (1 - ?density)"
      by (intro mult_nonneg_nonneg) simp_all
  qed
  ultimately show ?thesis by (simp del: of_nat_mult)
qed

lemma select_loop_max:
  assumes "select_loop (be0, bs0) es = Inr (be, bs)"
  shows "bs0 \<le> bs \<and> (\<forall>e. Some e \<in> set es \<longrightarrow> calculateScore e \<le> bs)
         \<and> ((be, bs) = (be0, bs0)
            \<or> (\<exists>e. be = Some e \<and> Some e \<in> set es \<and> calculateScore e = bs \<and> bs0 < bs))"
  using assms
proof (induction es arbitrary: be0 bs0)
  case Nil
  then show ?case by simp
next
  case (Cons x es)
  from Cons.prems obtain element where x: "x = Some element"
    by (cases x) auto
  let ?score = "calculateScore element"
  show ?case
  proof (cases "?score > bs0")
    case True
    with Cons.prems have "select_loop (Some element, ?score) es = Inr (be, bs)"
      by (simp add: x Let_def)
    then have "?score \<le> bs \<and> (\<forall>e. Some e \<in> set es \<longrightarrow> calculateScore e \<le> bs)
         \<and> ((be, bs) = (Some element, ?score)
            \<or> (\<exists>e. be = Some e \<and> Some e \<in> set es \<and> calculateScore e = bs \<and> ?score < bs))"
      by (rule Cons.IH)
    with True show ?thesis by (auto simp: x)
  next
    case False
    with Cons.prems have "select_loop (be0, bs0) es = Inr (be, bs)"
      by (simp add: x Let_def)
    then have "bs0 \<le> bs \<and> (\<forall>e. Some e \<in> set es \<longrightarrow> calculateScore e \<le> bs)
         \<and> ((be, bs) = (be0, bs0)
            \<or> (\<exists>e. be = Some e \<and> Some e \<in> set es \<and> calculateScore e = bs \<and> bs0 < bs))"
      by (rule Cons.IH)
    with False show ?thesis by (auto simp: x)
  qed
qed

lemma best_container_scored:
  assumes c: "Some c \<in> set (elementsToScore doc)" and sc: "- 1 < calculateScore c"
    and b: "best_element doc = Inr (Some r)"
  shows "Some r \<in> set (elementsToScore doc) \<and> \<not> matches_noise r
         \<and> calculateScore c \<le> calculateScore r"
proof -
  from b obtain bs where
    sl: "select_loop (document_body doc, - 1) (elementsToScore doc) = Inr (Some r, bs)"
    by (auto simp: best_element_def split: sum.splits)
  note m = select_loop_max[OF sl]
  from m c have le: "calculateScore c \<le> bs" by blast
  with sc have "- 1 < bs" by simp
  with m have r: "Some r \<in> set (elementsToScore doc)" "calculateScore r = bs"
    by auto
  from r(2) \<open>- 1 < bs\<close> have "\<not> matches_noise r"
    using calculateScore_noise[of r] by auto
  with r le show ?thesis by simp
qed

text \<open>
  The body the selection starts from is returned where no scored element scores above
  -1, whatever its own class: here the links of the article hold twice its text, the
  article scores -44, and the body, whose class matches the vocabulary, is returned.
\<close>

lemma default_body_can_match_noise:
  "best_element (strip_noise sample_nested_doc) = Inr (Some sample_nested_body)
   \<and> matches_noise sample_nested_body
   \<and> elementsToScore (strip_noise sample_nested_doc) = [Some sample_nested_links]
   \<and> \<not> matches_noise sample_nested_links
   \<and> (\<exists>p\<in>set (descendants sample_nested_links). tag_of p = js ''p''
          \<and> 25 < length (filter (\<lambda>x. \<not> is_ws x) (textContent p)))
   \<and> calculateScore sample_nested_links = - 44"
  by code_simp

lemma fetched_content_not_too_short: "fetched_content doc \<noteq> Inl ContentTooShortError"
proof
  assume a: "fetched_content doc = Inl ContentTooShortError"
  then have "best_element (strip_noise doc) = Inl ContentTooShortError"
    by (auto simp: fetched_content_def Let_def split: sum.splits option.splits)
  then obtain acc es where "select_loop acc es = Inl ContentTooShortError"
    by (auto simp: best_element_def split: sum.splits)
  then show False using select_loop_Inl by blast
qed

text \<open>
  C7.  The extraction raises the length error exactly when the combined text (the title,
  a blank line, the body with its line breaks collapsed) has, trimmed, fewer than 500
  code units.  With 500 or more, the combined text is what goes on to the generation.
\<close>

theorem content_too_short_iff:
  "(extractArticle doc = Inl ContentTooShortError \<longleftrightarrow>
      (\<exists>fc. fetched_content doc = Inr fc \<and> length (trim fc) < 500))
   \<and> (\<forall>fc. fetched_content doc = Inr fc \<and> 500 \<le> length (trim fc) \<longrightarrow> extractArticle doc = Inr fc)
   \<and> (\<forall>fc. fetched_content doc = Inr fc \<longrightarrow>
        (\<exists>best. best_element (strip_noise doc) = Inr (Some best)
           \<and> fc = page_title (strip_noise doc) @ [NL, NL]
                    @ replace_all line_breaks_m [NL, NL] (article_text best)))"
proof (intro conjI allI impI)
  show "extractArticle doc = Inl ContentTooShortError \<longleftrightarrow>
      (\<exists>fc. fetched_content doc = Inr fc \<and> length (trim fc) < 500)"
    using fetched_content_not_too_short[of doc]
    by (cases "fetched_content doc") (auto simp: extractArticle_def)
next
  fix fc
  assume "fetched_content doc = Inr fc \<and> 500 \<le> length (trim fc)"
  then show "extractArticle doc = Inr fc"
    by (simp add: extractArticle_def)
next
  fix fc
  assume "fetched_content doc = Inr fc"
  then show "\<exists>best. best_element (strip_noise doc) = Inr (Some best)
           \<and> fc = page_title (strip_noise doc) @ [NL, NL]
                    @ replace_all line_breaks_m [NL, NL] (article_text best)"
    by (auto simp: fetched_content_def Let_def split: sum.splits option.splits)
qed

theorem content_too_short_iff_witness:
  "extractArticle sample_doc = Inl ContentTooShortError
   \<and> fetched_content sample_doc = Inr sample_short_text
   \<and> length (trim sample_short_text) = 86
   \<and> extractArticle sample_long_doc = Inr sample_long_text
   \<and> length (trim sample_long_text) = 611"
proof -
  have s: "fetched_content sample_doc = Inr sample_short_text"
    by code_simp
  have sl: "length (trim sample_short_text) = 86"
    by code_simp
  have l: "fetched_content sample_long_doc = Inr sample_long_text"
    by code_simp
  have ll: "length (trim sample_long_text) = 611"
    by code_simp
  from s sl have "\<exists>fc. fetched_content sample_doc = Inr fc \<and> length (trim fc) < 500"
    by simp
  then have 1: "extractArticle sample_doc = Inl ContentTooShortError"
    using content_too_short_iff [of sample_doc] by blast
  from l ll have "fetched_content sample_long_doc = Inr sample_long_text
      \<and> 500 \<le> length (trim sample_long_text)"
    by simp
  then have 2: "extractArticle sample_long_doc = Inr sample_long_text"
    using content_too_short_iff [of sample_long_doc] by blast
  from 1 2 s sl l ll show ?thesis by simp
qed

end
